theory Spec2Isabelle
  imports Complex_Main "HOL-Library.Multiset" "HOL-Library.Word"
begin

section \<open>Route extraction of \<open>mtsp_solver\<close> (mtsp_problem.py, lines 113-131)\<close>

text \<open>
  Nodes are the indices \<open>0..n-1\<close> of the cost matrix, node \<open>0\<close> is the depot. A selected
  edge is a pair \<open>(i, j)\<close> of nodes; \<open>selected\<close> is a Python list of such pairs.
\<close>

type_synonym edge = "nat \<times> nat"

text \<open>
  The inner scan \<open>for j in range(len(selected)): if selected[j][0] == next_city: ... break\<close>:
  the index of the first edge whose source is \<open>next_city\<close>, or \<open>None\<close> when the scan runs to
  its end without a match.
\<close>

fun find_edge :: "edge list \<Rightarrow> nat \<Rightarrow> nat option" where
  "find_edge [] next_city = None"
| "find_edge (e # es) next_city =
     (if fst e = next_city then Some 0 else map_option Suc (find_edge es next_city))"

text \<open>\<open>selected.pop(j)\<close> for an index \<open>j\<close> in range.\<close>

definition pop :: "nat \<Rightarrow> 'a list \<Rightarrow> 'a list" where
  "pop j xs = take j xs @ drop (Suc j) xs"

text \<open>
  The loop \<open>while not finished\<close> for one salesman, on the state \<open>(selected, routes[i],
  next_city)\<close>. One iteration runs the scan; on a match it appends \<open>next_city\<close> to the route,
  moves to the destination of the edge and pops the edge; then \<open>finished\<close> is set exactly when
  \<open>next_city == 0\<close>. When the scan finds nothing and \<open>next_city\<close> is not the depot, the
  iteration changes nothing and the loop runs again on the same state: the loop may not
  return, which is the value \<open>None\<close>.
\<close>

partial_function (option) follow_route ::
  "edge list \<Rightarrow> nat list \<Rightarrow> nat \<Rightarrow> (edge list \<times> nat list) option" where
  "follow_route selected route next_city =
     (case find_edge selected next_city of
        Some j \<Rightarrow>
          (if snd (selected ! j) = 0 then Some (pop j selected, route @ [next_city])
           else follow_route (pop j selected) (route @ [next_city]) (snd (selected ! j)))
      | None \<Rightarrow>
          (if next_city = 0 then Some (selected, route)
           else follow_route selected route next_city))"

text \<open>
  The loop \<open>for i in range(salesmen)\<close>: each round appends a fresh route, starts at the
  depot and runs the while loop. The result is the final working list and the routes.
\<close>

fun extract_routes ::
  "nat \<Rightarrow> edge list \<Rightarrow> nat list list \<Rightarrow> (edge list \<times> nat list list) option" where
  "extract_routes 0 selected routes = Some (selected, routes)"
| "extract_routes (Suc k) selected routes =
     (case follow_route selected [] 0 of
        None \<Rightarrow> None
      | Some (selected', route) \<Rightarrow> extract_routes k selected' (routes @ [route]))"

section \<open>Distance matrix (utils.py, \<open>calculate_distances\<close>)\<close>

text \<open>
  A two-dimensional numpy array is the list of its rows; all rows of an array have the same
  length (\<open>shape[1]\<close>), and \<open>shape[0]\<close> is the number of rows. An array of floating-point
  numbers, such as the cost matrix and the matrix of distances, holds reals here: rounding
  is not modelled, and the values \<open>inf\<close> and \<open>nan\<close> are outside the model.
\<close>

type_synonym ndarray = "real list list"

text \<open>
  The array \<open>nodes\<close> has the element type its caller gave it. What \<open>calculate_distances\<close>
  uses of the element type is its subtraction, which stays within the type, and the
  conversion to floating point that \<open>np.linalg.norm\<close> applies to its argument.
\<close>

record 'a dtype =
  subtract :: "'a \<Rightarrow> 'a \<Rightarrow> 'a"
  as_float :: "'a \<Rightarrow> real"

text \<open>
  Two integer element types: unsigned 8-bit, and signed 64-bit, which is what
  \<open>generate_nodes\<close> returns. Their subtraction wraps around.
\<close>

definition uint8 :: "8 word dtype" where
  "uint8 = \<lparr>subtract = (\<lambda>x y. x - y), as_float = (\<lambda>x. real (unat x))\<rparr>"

definition int64 :: "64 word dtype" where
  "int64 = \<lparr>subtract = (\<lambda>x y. x - y), as_float = (\<lambda>x. real_of_int (sint x))\<rparr>"

text \<open>
  \<open>np.linalg.norm\<close> of a vector: the elements as floating-point numbers, then the square
  root of the sum of their squares.
\<close>

definition linalg_norm :: "'a dtype \<Rightarrow> 'a list \<Rightarrow> real" where
  "linalg_norm dt v = sqrt (sum_list (map (\<lambda>x. (as_float dt x) ^ 2) v))"

text \<open>
  \<open>nodes[k, :] - nodes[p, :]\<close>, the elementwise difference of two rows, in the element
  type of the array.
\<close>

definition row_sub :: "'a dtype \<Rightarrow> 'a list \<Rightarrow> 'a list \<Rightarrow> 'a list" where
  "row_sub dt r1 r2 = map (\<lambda>(x, y). subtract dt x y) (zip r1 r2)"

text \<open>
  \<open>distances = np.zeros((n, n))\<close>, then the two nested loops store
  \<open>distances[k, p] = np.linalg.norm(nodes[k, :] - nodes[p, :])\<close>.
\<close>

definition calculate_distances :: "'a dtype \<Rightarrow> 'a list list \<Rightarrow> ndarray" where
  "calculate_distances dt nodes =
     (let n = length nodes in
      fold (\<lambda>k distances.
              fold (\<lambda>p distances.
                      distances[k := (distances ! k)
                         [p := linalg_norm dt (row_sub dt (nodes ! k) (nodes ! p))]])
                [0..<n] distances)
        [0..<n] (replicate n (replicate n 0)))"

text \<open>
  The differences of the rows of \<open>nodes\<close> are exact when, for every two rows, the
  subtraction of the element type gives the difference of the numbers: no wrap-around.
\<close>

definition exact_differences :: "'a dtype \<Rightarrow> 'a list list \<Rightarrow> bool" where
  "exact_differences dt nodes =
     list_all (\<lambda>r1. list_all (\<lambda>r2.
        list_all (\<lambda>(x, y). as_float dt (subtract dt x y) = as_float dt x - as_float dt y)
          (zip r1 r2)) nodes) nodes"

section \<open>The MILP model built by \<open>mtsp_solver\<close> (mtsp_problem.py, lines 52-110)\<close>

datatype error = IndexError | GurobiError

text \<open>
  The decision variables: \<open>E i j\<close> is \<open>e_vars[i, j]\<close>, \<open>U i\<close> is \<open>u_vars[i]\<close>. A variable
  carries what \<open>addVar\<close> was given: bounds, objective coefficient, type and name. A
  \<open>BINARY\<close> variable is created with bounds 0 and 1.
\<close>

datatype var = E nat nat | U nat

datatype vtype = BINARY | INTEGER

record var_info =
  lb :: real
  ub :: real
  obj :: real
  vtype :: vtype
  name :: string

text \<open>
  A linear constraint \<open>lhs sense rhs\<close>: the left-hand side is a list of terms
  (coefficient, variable), the right-hand side a constant.
\<close>

datatype sense = LE | GE | EQ

record lin_constr =
  lhs :: "(real \<times> var) list"
  sense :: sense
  rhs :: real

record milp =
  variables :: "(var \<times> var_info) list"
  constrs :: "lin_constr list"
  OutputFlag :: int
  TimeLimit :: real

text \<open>Python's \<open>str\<close> on a non-negative integer (decimal digits).\<close>

definition digit :: "nat \<Rightarrow> char" where
  "digit d = char_of (48 + d)"

function str :: "nat \<Rightarrow> string" where
  "str n = (if n < 10 then [digit n] else str (n div 10) @ [digit (n mod 10)])"
  by pat_completeness auto
termination
  by (relation "measure id") auto

declare str.simps [simp del]

text \<open>
  \<open>cost[i, j]\<close> on a two-dimensional array raises \<open>IndexError\<close> outside the shape.
\<close>

definition getitem :: "ndarray \<Rightarrow> nat \<Rightarrow> nat \<Rightarrow> error + real" where
  "getitem cost i j =
     (if i < length cost \<and> j < length (cost ! i) then Inr (cost ! i ! j) else Inl IndexError)"

text \<open>
  Lines 67-70: the loops over \<open>i\<close> and \<open>j\<close> creating \<open>e_vars[i, j]\<close>, as a recursion over
  the pairs \<open>(i, j)\<close> in loop order; a failing read of \<open>cost[i, j]\<close> ends it.
\<close>

fun create_e_vars ::
  "ndarray \<Rightarrow> (nat \<times> nat) list \<Rightarrow> (var \<times> var_info) list \<Rightarrow> error + (var \<times> var_info) list" where
  "create_e_vars cost [] e_vars = Inr e_vars"
| "create_e_vars cost ((i, j) # ps) e_vars =
     (case getitem cost i j of
        Inl err \<Rightarrow> Inl err
      | Inr c \<Rightarrow>
          create_e_vars cost ps
            (e_vars @ [(E i j, \<lparr>lb = 0, ub = 1, obj = c, vtype = BINARY,
                                name = ''e'' @ str i @ ''_'' @ str j\<rparr>)]))"

text \<open>Lines 73-74: \<open>e_vars[i, i].ub = 0\<close> for every \<open>i\<close>.\<close>

definition set_ub :: "var \<Rightarrow> real \<Rightarrow> (var \<times> var_info) list \<Rightarrow> (var \<times> var_info) list" where
  "set_ub v b vs = map (\<lambda>(w, info). if w = v then (w, info\<lparr>ub := b\<rparr>) else (w, info)) vs"

definition forbid_loops :: "nat \<Rightarrow> (var \<times> var_info) list \<Rightarrow> (var \<times> var_info) list" where
  "forbid_loops n e_vars = fold (\<lambda>i vs. set_ub (E i i) 0 vs) [0..<n] e_vars"

text \<open>Lines 76-78: the variables \<open>u_vars[i]\<close>, integer in \<open>[0, L]\<close>.\<close>

definition create_u_vars :: "nat \<Rightarrow> int \<Rightarrow> (var \<times> var_info) list" where
  "create_u_vars n L =
     map (\<lambda>i. (U i, \<lparr>lb = 0, ub = of_int L, obj = 0, vtype = INTEGER, name = ''u'' @ str i\<rparr>))
       [0..<n]"

text \<open>Lines 82-83: the two degree constraints of the depot.\<close>

definition depot_degree_constrs :: "nat \<Rightarrow> int \<Rightarrow> lin_constr list" where
  "depot_degree_constrs n salesmen =
     [\<lparr>lhs = map (\<lambda>i. (1, E 0 i)) [1..<n], sense = EQ, rhs = of_int salesmen\<rparr>,
      \<lparr>lhs = map (\<lambda>i. (1, E i 0)) [1..<n], sense = EQ, rhs = of_int salesmen\<rparr>]"

text \<open>Lines 85-89: one outgoing and one incoming edge for every other node.\<close>

definition out_degree_constrs :: "nat \<Rightarrow> lin_constr list" where
  "out_degree_constrs n =
     map (\<lambda>i. \<lparr>lhs = map (\<lambda>j. (1, E i j)) (filter (\<lambda>j. i \<noteq> j) [0..<n]),
               sense = EQ, rhs = 1\<rparr>) [1..<n]"

definition in_degree_constrs :: "nat \<Rightarrow> lin_constr list" where
  "in_degree_constrs n =
     map (\<lambda>i. \<lparr>lhs = map (\<lambda>j. (1, E j i)) (filter (\<lambda>j. i \<noteq> j) [0..<n]),
               sense = EQ, rhs = 1\<rparr>) [1..<n]"

definition degree_constrs :: "nat \<Rightarrow> int \<Rightarrow> lin_constr list" where
  "degree_constrs n salesmen =
     depot_degree_constrs n salesmen @ out_degree_constrs n @ in_degree_constrs n"

text \<open>Lines 91-103: the four families of subtour-elimination constraints.\<close>

definition route_upper_constrs :: "nat \<Rightarrow> int \<Rightarrow> lin_constr list" where
  "route_upper_constrs n L =
     map (\<lambda>i. \<lparr>lhs = [(1, U i), (of_int (L - 2), E 0 i), (- 1, E i 0)],
               sense = LE, rhs = of_int (L - 1)\<rparr>) [1..<n]"

definition route_lower_constrs :: "nat \<Rightarrow> int \<Rightarrow> lin_constr list" where
  "route_lower_constrs n K =
     map (\<lambda>i. \<lparr>lhs = [(1, U i), (1, E 0 i), (of_int (2 - K), E i 0)],
               sense = GE, rhs = 2\<rparr>) [1..<n]"

definition depot_exclusion_constrs :: "nat \<Rightarrow> lin_constr list" where
  "depot_exclusion_constrs n =
     map (\<lambda>i. \<lparr>lhs = [(1, E 0 i), (1, E i 0)], sense = LE, rhs = 1\<rparr>) [1..<n]"

definition ordering_constrs :: "nat \<Rightarrow> int \<Rightarrow> lin_constr list" where
  "ordering_constrs n L =
     concat (map (\<lambda>i.
        map (\<lambda>j. \<lparr>lhs = [(1, U i), (- 1, U j), (of_int L, E i j), (of_int (L - 2), E j i)],
                  sense = LE, rhs = of_int (L - 1)\<rparr>)
          (filter (\<lambda>j. i \<noteq> j) [1..<n])) [1..<n])"

definition subtour_constrs :: "nat \<Rightarrow> int \<Rightarrow> int \<Rightarrow> lin_constr list" where
  "subtour_constrs n K L =
     route_upper_constrs n L @ route_lower_constrs n K @ depot_exclusion_constrs n
       @ ordering_constrs n L"

text \<open>
  The keyword arguments read by \<open>mtsp_solver\<close>: \<open>output_flag\<close> (default 0) and
  \<open>time_limit\<close> (default 60.0).
\<close>

record kwargs =
  output_flag :: "int option"
  time_limit :: "real option"

text \<open>The model at the call of \<open>m.optimize()\<close>, from the created \<open>e_vars\<close>.\<close>

definition build_model ::
  "nat \<Rightarrow> (var \<times> var_info) list \<Rightarrow> int \<Rightarrow> int \<Rightarrow> int \<Rightarrow> kwargs \<Rightarrow> milp" where
  "build_model n e_vars salesmen K L kw =
     \<lparr>variables = forbid_loops n e_vars @ create_u_vars n L,
      constrs = degree_constrs n salesmen @ subtour_constrs n K L,
      OutputFlag = (case output_flag kw of None \<Rightarrow> 0 | Some f \<Rightarrow> f),
      TimeLimit = (case time_limit kw of None \<Rightarrow> 60 | Some t \<Rightarrow> t)\<rparr>"

section \<open>Assignments and feasibility\<close>

text \<open>
  An assignment gives every variable a value (the attribute \<open>X\<close>). It satisfies a variable
  when the value is integral and within the bounds, and a constraint when the left-hand
  side, evaluated, stands in the stated relation to the right-hand side.
\<close>

definition eval_lin :: "(var \<Rightarrow> real) \<Rightarrow> (real \<times> var) list \<Rightarrow> real" where
  "eval_lin a ts = sum_list (map (\<lambda>(c, v). c * a v) ts)"

definition sat_constr :: "(var \<Rightarrow> real) \<Rightarrow> lin_constr \<Rightarrow> bool" where
  "sat_constr a c =
     (case sense c of
        LE \<Rightarrow> eval_lin a (lhs c) \<le> rhs c
      | GE \<Rightarrow> eval_lin a (lhs c) \<ge> rhs c
      | EQ \<Rightarrow> eval_lin a (lhs c) = rhs c)"

definition within_bounds :: "(var \<Rightarrow> real) \<Rightarrow> var \<times> var_info \<Rightarrow> bool" where
  "within_bounds a vi = (lb (snd vi) \<le> a (fst vi) \<and> a (fst vi) \<le> ub (snd vi))"

definition integral :: "(var \<Rightarrow> real) \<Rightarrow> var \<times> var_info \<Rightarrow> bool" where
  "integral a vi = (a (fst vi) = of_int \<lfloor>a (fst vi)\<rfloor>)"

definition feasible :: "milp \<Rightarrow> (var \<Rightarrow> real) \<Rightarrow> bool" where
  "feasible m a =
     (list_all (within_bounds a) (variables m) \<and> list_all (integral a) (variables m)
      \<and> list_all (sat_constr a) (constrs m))"

section \<open>\<open>mtsp_solver\<close>\<close>

text \<open>
  Lines 52-109, up to the call of \<open>m.optimize()\<close>: the defaults \<open>K = 2\<close> and \<open>L = n\<close>, the
  variables and the constraints. The only step that can raise is the read of \<open>cost[i, j]\<close>.
\<close>

definition mtsp_model ::
  "ndarray \<Rightarrow> int \<Rightarrow> int option \<Rightarrow> int option \<Rightarrow> kwargs \<Rightarrow> error + milp" where
  "mtsp_model cost salesmen min_cities max_cities kw =
     (let n = length cost;
          K = (case min_cities of None \<Rightarrow> 2 | Some k \<Rightarrow> k);
          L = (case max_cities of None \<Rightarrow> int n | Some l \<Rightarrow> l)
      in case create_e_vars cost (List.product [0..<n] [0..<n]) [] of
           Inl err \<Rightarrow> Inl err
         | Inr e_vars \<Rightarrow> Inr (build_model n e_vars salesmen K L kw))"

text \<open>
  The optimiser is outside the repository: \<open>m.optimize()\<close> either leaves a solution (the
  values \<open>X\<close> of the variables and \<open>objVal\<close>) or none, and then reading the attribute
  \<open>X\<close> raises \<open>GurobiError\<close>. A solution it leaves is feasible for the model it was given.
\<close>

record solution =
  X :: "var \<Rightarrow> real"
  objVal :: real

type_synonym optimizer = "milp \<Rightarrow> solution option"

definition sound :: "optimizer \<Rightarrow> bool" where
  "sound optimize = (\<forall>m sol. optimize m = Some sol \<longrightarrow> feasible m (X sol))"

text \<open>Line 113: the edges whose value exceeds 0.5, in the order of the comprehension.\<close>

definition selected_edges :: "nat \<Rightarrow> (var \<Rightarrow> real) \<Rightarrow> edge list" where
  "selected_edges n sol = [(i, j). i \<leftarrow> [0..<n], j \<leftarrow> [0..<n], sol (E i j) > 1 / 2]"

text \<open>
  \<open>mtsp_solver(cost, salesmen, min_cities, max_cities, **kwargs)\<close>. The array \<open>cost\<close> is
  the caller's object; the first component of the result is its contents when the call
  ends, the second is the exception raised or the returned triple
  \<open>(routes, m.objVal, m)\<close>. The whole is \<open>None\<close> when the call does not return.
\<close>

definition mtsp_solver ::
  "optimizer \<Rightarrow> ndarray \<Rightarrow> int \<Rightarrow> int option \<Rightarrow> int option \<Rightarrow> kwargs \<Rightarrow>
     (ndarray \<times> (error + nat list list \<times> real \<times> milp)) option" where
  "mtsp_solver optimize cost salesmen min_cities max_cities kw =
     (case mtsp_model cost salesmen min_cities max_cities kw of
        Inl err \<Rightarrow> Some (cost, Inl err)
      | Inr m \<Rightarrow>
          (case optimize m of
             None \<Rightarrow> Some (cost, Inl GurobiError)
           | Some sol \<Rightarrow>
               (case extract_routes (nat salesmen) (selected_edges (length cost) (X sol)) [] of
                  None \<Rightarrow> None
                | Some (selected, routes) \<Rightarrow> Some (cost, Inr (routes, objVal sol, m)))))"

text \<open>
  A walk from \<open>u\<close> to \<open>v\<close> is a list of edges, each starting where the one before it ends.
\<close>

fun walk :: "nat \<Rightarrow> edge list \<Rightarrow> nat \<Rightarrow> bool" where
  "walk u [] v = (u = v)"
| "walk u (e # es) v = (fst e = u \<and> walk (snd e) es v)"

section \<open>Degrees and closed routes of an edge list\<close>

text \<open>
  The number of edges of a list that leave a node and that enter it; a list is balanced when
  the two agree at every node.
\<close>

definition out_degree :: "edge list \<Rightarrow> nat \<Rightarrow> nat" where
  "out_degree es v = length (filter (\<lambda>e. fst e = v) es)"

definition in_degree :: "edge list \<Rightarrow> nat \<Rightarrow> nat" where
  "in_degree es v = length (filter (\<lambda>e. snd e = v) es)"

definition balanced :: "edge list \<Rightarrow> bool" where
  "balanced es = (\<forall>v. out_degree es v = in_degree es v)"

text \<open>
  A closed route: the edges of one round, from the depot back to it, leaving the depot
  only with the first edge.
\<close>

definition closed_route :: "edge list \<Rightarrow> bool" where
  "closed_route es = (es \<noteq> [] \<and> walk 0 es 0 \<and> (\<forall>e\<in>set (tl es). fst e \<noteq> 0))"

text \<open>
  The edge list \<open>selected\<close> forms the closed walks \<open>ws\<close> through the depot when the walks
  are non-empty, start and end at the depot, and together use every edge of the list as
  often as it occurs there.
\<close>

definition forms_closed_walks :: "edge list \<Rightarrow> edge list list \<Rightarrow> bool" where
  "forms_closed_walks selected ws =
     (mset (concat ws) = mset selected \<and> list_all (\<lambda>w. w \<noteq> [] \<and> walk 0 w 0) ws)"

section \<open>\<open>mtsp_solver\<close> on a heap of objects\<close>

text \<open>
  The objects a call of \<open>mtsp_solver\<close> can reach: the cost matrix of the caller, and the two
  lists the function creates, \<open>selected\<close> and \<open>routes\<close>. A heap is the list of the objects
  that exist; the address of an object is its index, and a new object is put at the end.
\<close>

datatype obj = NDArray ndarray | EdgeList "edge list" | RouteList "nat list list"













section \<open>Concrete instances\<close>

text \<open>
  The default keyword arguments, a symmetric cost matrix on three nodes, and the assignment
  of the tour 0, 1, 2 on it with the positions \<open>u[i] = i\<close>.
\<close>

definition kw0 :: kwargs where
  "kw0 = \<lparr>output_flag = None, time_limit = None\<rparr>"

definition cost3 :: ndarray where
  "cost3 = [[0, 1, 1], [1, 0, 1], [1, 1, 0]]"

definition tour3 :: "var \<Rightarrow> real" where
  "tour3 v =
     (case v of
        E i j \<Rightarrow> if (i, j) \<in> {(0, 1), (1, 2), (2, 0)} then 1 else 0
      | U i \<Rightarrow> real i)"

text \<open>
  An optimiser that proposes one fixed assignment with a fixed objective value, and leaves
  it as the solution exactly when it is feasible for the model.
\<close>

definition fixed_answer :: "(var \<Rightarrow> real) \<Rightarrow> real \<Rightarrow> optimizer" where
  "fixed_answer a v m = (if feasible m a then Some \<lparr>X = a, objVal = v\<rparr> else None)"



section \<open>Non-termination on a malformed edge set\<close>

lemma follow_route_stuck:
  assumes "follow_route selected route next_city = Some r"
  shows "\<not> (find_edge selected next_city = None \<and> next_city \<noteq> 0)"
  by (rule follow_route.raw_induct
        [where P = "\<lambda>s rt c r. \<not> (find_edge s c = None \<and> c \<noteq> 0)", OF _ assms])
     (fastforce split: option.splits if_splits)

text \<open>
  C5. The edge set \<open>[(0, 1)]\<close> is malformed (node 1 is entered and never left, so it holds
  no closed route through the depot), and on it the extraction for one salesman does not
  return: after the edge is consumed the while loop stays at node 1 forever.
\<close>

theorem extract_routes_diverges:
  "extract_routes 1 [(0, 1)] [] = None"
proof -
  have "follow_route [] [0] 1 = None"
    using follow_route_stuck [of "[]" "[0]" 1] by (cases "follow_route [] [0] 1") auto
  then have "follow_route [(0, 1)] [] 0 = None"
    by (subst follow_route.simps) (simp add: pop_def)
  then show ?thesis
    unfolding One_nat_def by simp
qed

section \<open>The distance matrix\<close>

lemma fold_update_row:
  "m \<le> length r \<Longrightarrow> fold (\<lambda>p r. r[p := f p]) [0..<m] r = map f [0..<m] @ drop m r"
proof (induction m)
  case 0
  then show ?case by simp
next
  case (Suc m)
  then have "m < length r" by simp
  then have "(map f [0..<m] @ drop m r)[m := f m] = map f [0..<m] @ f m # drop (Suc m) r"
    by (simp add: list_update_append Cons_nth_drop_Suc [symmetric] del: upt_Suc)
  with Suc show ?case by simp
qed

lemma fold_update_entry:
  "k < length D \<Longrightarrow>
   fold (\<lambda>p D. D[k := (D ! k)[p := g p]]) ps D = D[k := fold (\<lambda>p r. r[p := g p]) ps (D ! k)]"
  by (induction ps arbitrary: D) simp_all

lemma fold_update_rows:
  "m \<le> length D \<Longrightarrow>
   fold (\<lambda>k D. D[k := F k (D ! k)]) [0..<m] D = map (\<lambda>k. F k (D ! k)) [0..<m] @ drop m D"
proof (induction m)
  case 0
  then show ?case by simp
next
  case (Suc m)
  then have m: "m < length D" by simp
  then have "(map (\<lambda>k. F k (D ! k)) [0..<m] @ drop m D)[m := F m (D ! m)]
      = map (\<lambda>k. F k (D ! k)) [0..<m] @ F m (D ! m) # drop (Suc m) D"
    by (simp add: list_update_append Cons_nth_drop_Suc [symmetric] del: upt_Suc)
  moreover have "(map (\<lambda>k. F k (D ! k)) [0..<m] @ drop m D) ! m = D ! m"
    using m by (simp add: nth_append)
  ultimately show ?case using Suc by simp
qed

lemma calculate_distances_eq:
  "calculate_distances dt nodes =
     map (\<lambda>k. map (\<lambda>p. linalg_norm dt (row_sub dt (nodes ! k) (nodes ! p))) [0..<length nodes])
       [0..<length nodes]"
proof -
  let ?n = "length nodes"
  let ?d = "\<lambda>k p. linalg_norm dt (row_sub dt (nodes ! k) (nodes ! p))"
  let ?Z = "replicate ?n (replicate ?n (0::real))"
  have inner: "fold (\<lambda>p D. D[k := (D ! k)[p := ?d k p]]) [0..<?n] D
      = D[k := map (?d k) [0..<?n]]" if "k < length D" "length (D ! k) = ?n" for k D
    using that by (simp add: fold_update_entry fold_update_row)
  have "fold (\<lambda>k D. fold (\<lambda>p D. D[k := (D ! k)[p := ?d k p]]) [0..<?n] D) ks D
      = fold (\<lambda>k D. D[k := (\<lambda>k r. map (?d k) [0..<?n]) k (D ! k)]) ks D"
    if "set ks \<subseteq> {0..<?n}" "length D = ?n" "\<forall>r\<in>set D. length r = ?n" for ks D
    using that
  proof (induction ks arbitrary: D)
    case Nil
    then show ?case by simp
  next
    case (Cons k ks)
    then have k: "k < length D" "length (D ! k) = ?n" by auto
    have "\<forall>r\<in>set (D[k := map (?d k) [0..<?n]]). length r = ?n"
      using Cons.prems(3) by (auto dest!: subsetD [OF set_update_subset_insert])
    with Cons k show ?case by (simp add: inner)
  qed
  from this [of "[0..<?n]" ?Z]
  have "calculate_distances dt nodes
      = fold (\<lambda>k D. D[k := (\<lambda>k r. map (?d k) [0..<?n]) k (D ! k)]) [0..<?n] ?Z"
    by (simp add: calculate_distances_def Let_def)
  also have "\<dots> = map (\<lambda>k. map (?d k) [0..<?n]) [0..<?n]"
    by (subst fold_update_rows) simp_all
  finally show ?thesis .
qed

lemma linalg_norm_exact:
  assumes "\<forall>(x, y)\<in>set (zip a b). as_float dt (subtract dt x y) = as_float dt x - as_float dt y"
  shows "linalg_norm dt (row_sub dt a b)
           = sqrt (sum_list (map (\<lambda>(x, y). (as_float dt x - as_float dt y) ^ 2) (zip a b)))"
proof -
  have "map (\<lambda>x. (as_float dt x) ^ 2) (row_sub dt a b)
      = map (\<lambda>(x, y). (as_float dt x - as_float dt y) ^ 2) (zip a b)"
    using assms by (auto simp: row_sub_def)
  then show ?thesis by (simp add: linalg_norm_def)
qed

lemma sum_sq_swap:
  "sum_list (map (\<lambda>(x, y). (f x - f y :: real) ^ 2) (zip a b))
     = sum_list (map (\<lambda>(x, y). (f x - f y) ^ 2) (zip b a))"
proof (induction a arbitrary: b)
  case Nil
  then show ?case by simp
next
  case (Cons x a)
  then show ?case by (cases b) (simp_all add: power2_commute)
qed

lemma sum_sq_self: "sum_list (map (\<lambda>(x, y). (f x - f y :: real) ^ 2) (zip a a)) = 0"
  by (induction a) simp_all

text \<open>
  C8, as the code has it. For an array \<open>nodes\<close> with \<open>n\<close> rows whose row differences are exact
  in its element type, \<open>calculate_distances\<close> returns \<open>n\<close> rows of \<open>n\<close> entries; the entry
  \<open>(k, p)\<close> is the Euclidean distance of the rows \<open>k\<close> and \<open>p\<close> of \<open>nodes\<close>, it equals the
  entry \<open>(p, k)\<close>, and the entry \<open>(k, k)\<close> is zero.
\<close>

theorem calculate_distances_symmetric_zero_diagonal:
  assumes "k < length nodes" and "p < length nodes" and "exact_differences dt nodes"
  shows "length (calculate_distances dt nodes) = length nodes
    \<and> length (calculate_distances dt nodes ! k) = length nodes
    \<and> calculate_distances dt nodes ! k ! p
        = sqrt (sum_list (map (\<lambda>(x, y). (as_float dt x - as_float dt y) ^ 2)
                   (zip (nodes ! k) (nodes ! p))))
    \<and> calculate_distances dt nodes ! k ! p = calculate_distances dt nodes ! p ! k
    \<and> calculate_distances dt nodes ! k ! k = 0"
proof -
  have ex: "\<forall>(x, y)\<in>set (zip (nodes ! i) (nodes ! j)).
              as_float dt (subtract dt x y) = as_float dt x - as_float dt y"
    if "i < length nodes" "j < length nodes" for i j
  proof -
    from that have "nodes ! i \<in> set nodes" "nodes ! j \<in> set nodes" by simp_all
    with assms(3) show ?thesis by (simp add: exact_differences_def list_all_iff)
  qed
  have entry: "calculate_distances dt nodes ! i ! j
      = sqrt (sum_list (map (\<lambda>(x, y). (as_float dt x - as_float dt y) ^ 2)
                 (zip (nodes ! i) (nodes ! j))))"
    if "i < length nodes" "j < length nodes" for i j
    using that linalg_norm_exact [OF ex [OF that]] by (simp add: calculate_distances_eq)
  show ?thesis
    using assms(1,2) entry [OF assms(1,2)] entry [OF assms(2,1)] entry [OF assms(1,1)]
      sum_sq_swap [of "as_float dt" "nodes ! k" "nodes ! p"]
    by (simp add: sum_sq_self) (simp add: calculate_distances_eq)
qed

theorem calculate_distances_witness:
  "calculate_distances int64 [[0, 0], [3, 4]] ! 0 ! 1 = sqrt 25
    \<and> calculate_distances int64 [[0, 0], [3, 4]] ! 1 ! 0 = sqrt 25
    \<and> calculate_distances int64 [[0, 0], [3, 4]] ! 1 ! 1 = 0"
proof -
  have "exact_differences int64 [[0, 0], [3, 4]]"
    by (simp add: exact_differences_def int64_def)
  from calculate_distances_symmetric_zero_diagonal [OF _ _ this, of 0 1]
       calculate_distances_symmetric_zero_diagonal [OF _ _ this, of 1 1]
  show ?thesis by (simp add: int64_def)
qed

lemma unat_minus_one_8: "unat (- 1 :: 8 word) = 255"
  by (simp add: unsigned_minus_1_eq_mask mask_eq_exp_minus_1)

lemma unsigned_minus_one_8: "(unsigned (- 1 :: 8 word) :: real) = 255"
proof -
  have "(unsigned (- 1 :: 8 word) :: real) = real (unat (- 1 :: 8 word))"
    by (simp only: of_nat_unat)
  then show ?thesis by (simp only: unat_minus_one_8)
qed

text \<open>
  C8 as the specification states it fails: on the unsigned 8-bit array with the rows
  \<open>[0]\<close> and \<open>[1]\<close> the difference \<open>0 - 1\<close> wraps to 255, so the entry \<open>(0, 1)\<close> is 255
  and the entry \<open>(1, 0)\<close> is 1.
\<close>

theorem calculate_distances_unsigned_asymmetric:
  "calculate_distances uint8 [[0], [1]] ! 0 ! 1 = 255
    \<and> calculate_distances uint8 [[0], [1]] ! 1 ! 0 = 1"
  by (simp add: calculate_distances_eq linalg_norm_def row_sub_def uint8_def
      unsigned_minus_one_8)

section \<open>The constraints of the model\<close>

lemma eval_lin_unit:
  "distinct xs \<Longrightarrow> eval_lin a (map (\<lambda>i. (1, f i)) xs) = (\<Sum>i\<in>set xs. a (f i))"
  by (simp add: eval_lin_def comp_def sum_list_distinct_conv_sum_set)

lemma set_others: "set (filter (\<lambda>j. i \<noteq> j) [m..<n]) = {m..<n} - {i}"
  by auto

lemma eval_lin_others:
  "eval_lin a (map (\<lambda>j. (1, f j)) (filter (\<lambda>j. i \<noteq> j) [m..<n])) = (\<Sum>j\<in>{m..<n} - {i}. a (f j))"
  using eval_lin_unit [of "filter (\<lambda>j. i \<noteq> j) [m..<n]" a f] by (simp only: set_others distinct_filter distinct_upt)

lemma constrs_build_model:
  "constrs (build_model n e_vars salesmen K L kw) = degree_constrs n salesmen @ subtour_constrs n K L"
  by (simp add: build_model_def)

lemma degree_sat:
  "list_all (sat_constr a) (degree_constrs n salesmen) \<longleftrightarrow>
        (\<Sum>j\<in>{1..<n}. a (E 0 j)) = of_int salesmen
      \<and> (\<Sum>j\<in>{1..<n}. a (E j 0)) = of_int salesmen
      \<and> (\<forall>i\<in>{1..<n}. (\<Sum>j\<in>{0..<n} - {i}. a (E i j)) = 1
                     \<and> (\<Sum>j\<in>{0..<n} - {i}. a (E j i)) = 1)"
proof -
  have depot: "list_all (sat_constr a) (depot_degree_constrs n salesmen) \<longleftrightarrow>
      (\<Sum>j\<in>{1..<n}. a (E 0 j)) = of_int salesmen \<and> (\<Sum>j\<in>{1..<n}. a (E j 0)) = of_int salesmen"
    by (simp add: depot_degree_constrs_def sat_constr_def eval_lin_unit)
  have out: "list_all (sat_constr a) (out_degree_constrs n) \<longleftrightarrow>
      (\<forall>i\<in>{1..<n}. (\<Sum>j\<in>{0..<n} - {i}. a (E i j)) = 1)"
    by (simp add: out_degree_constrs_def sat_constr_def eval_lin_others list_all_iff)
  have inc: "list_all (sat_constr a) (in_degree_constrs n) \<longleftrightarrow>
      (\<forall>i\<in>{1..<n}. (\<Sum>j\<in>{0..<n} - {i}. a (E j i)) = 1)"
    by (simp add: in_degree_constrs_def sat_constr_def eval_lin_others list_all_iff)
  show ?thesis
    by (simp add: degree_constrs_def depot out inc) blast
qed

lemma subtour_sat:
  "list_all (sat_constr a) (subtour_constrs n K L) \<longleftrightarrow>
        (\<forall>i\<in>{1..<n}.
            a (U i) + of_int (L - 2) * a (E 0 i) - a (E i 0) \<le> of_int (L - 1)
          \<and> a (U i) + a (E 0 i) + of_int (2 - K) * a (E i 0) \<ge> 2
          \<and> a (E 0 i) + a (E i 0) \<le> 1)
      \<and> (\<forall>i\<in>{1..<n}. \<forall>j\<in>{1..<n}. i \<noteq> j \<longrightarrow>
            a (U i) - a (U j) + of_int L * a (E i j) + of_int (L - 2) * a (E j i)
              \<le> of_int (L - 1))"
proof -
  have up: "list_all (sat_constr a) (route_upper_constrs n L) \<longleftrightarrow>
      (\<forall>i\<in>{1..<n}. a (U i) + of_int (L - 2) * a (E 0 i) - a (E i 0) \<le> of_int (L - 1))"
    by (simp add: route_upper_constrs_def sat_constr_def eval_lin_def list_all_iff add_diff_eq)
  have low: "list_all (sat_constr a) (route_lower_constrs n K) \<longleftrightarrow>
      (\<forall>i\<in>{1..<n}. a (U i) + a (E 0 i) + of_int (2 - K) * a (E i 0) \<ge> 2)"
    by (simp add: route_lower_constrs_def sat_constr_def eval_lin_def list_all_iff add.assoc)
  have excl: "list_all (sat_constr a) (depot_exclusion_constrs n) \<longleftrightarrow>
      (\<forall>i\<in>{1..<n}. a (E 0 i) + a (E i 0) \<le> 1)"
    by (simp add: depot_exclusion_constrs_def sat_constr_def eval_lin_def list_all_iff)
  have ord: "list_all (sat_constr a) (ordering_constrs n L) \<longleftrightarrow>
      (\<forall>i\<in>{1..<n}. \<forall>j\<in>{1..<n}. i \<noteq> j \<longrightarrow>
         a (U i) - a (U j) + of_int L * a (E i j) + of_int (L - 2) * a (E j i) \<le> of_int (L - 1))"
    by (auto simp add: ordering_constrs_def sat_constr_def eval_lin_def list_all_iff algebra_simps)
  show ?thesis
    by (simp add: subtour_constrs_def up low excl ord) blast
qed

section \<open>The variables of the model\<close>

lemma create_e_vars_Inr:
  "create_e_vars cost ps acc = Inr vs \<Longrightarrow>
   vs = acc @ map (\<lambda>(i, j). (E i j, \<lparr>lb = 0, ub = 1, obj = cost ! i ! j, vtype = BINARY,
                                    name = ''e'' @ str i @ ''_'' @ str j\<rparr>)) ps"
  by (induction cost ps acc rule: create_e_vars.induct)
     (auto simp: getitem_def split: sum.splits if_splits)

lemma forbid_loops_eq:
  "forbid_loops n vs =
     map (\<lambda>(w, info). if \<exists>i<n. w = E i i then (w, info\<lparr>ub := 0\<rparr>) else (w, info)) vs"
proof (induction n)
  case 0
  then show ?case by (simp add: forbid_loops_def)
next
  case (Suc n)
  have "forbid_loops (Suc n) vs = set_ub (E n n) 0 (forbid_loops n vs)"
    by (simp add: forbid_loops_def)
  also have "\<dots> = map (\<lambda>(w, info). if \<exists>i<Suc n. w = E i i then (w, info\<lparr>ub := 0\<rparr>) else (w, info)) vs"
    unfolding Suc set_ub_def by (auto simp: less_Suc_eq)
  finally show ?case .
qed

lemma model_e_var:
  assumes "mtsp_model cost salesmen min_cities max_cities kw = Inr m"
      and "i < length cost" and "j < length cost"
  shows "\<exists>info. (E i j, info) \<in> set (variables m) \<and> lb info = 0
            \<and> ub info = (if i = j then 0 else 1)"
proof -
  let ?n = "length cost"
  from assms(1) obtain ev where ev: "create_e_vars cost (List.product [0..<?n] [0..<?n]) [] = Inr ev"
    and m: "variables m = forbid_loops ?n ev @ create_u_vars ?n
               (case max_cities of None \<Rightarrow> int ?n | Some l \<Rightarrow> l)"
    by (auto simp: mtsp_model_def Let_def build_model_def split: sum.splits)
  let ?info = "\<lparr>lb = 0, ub = 1, obj = cost ! i ! j, vtype = BINARY,
                 name = ''e'' @ str i @ ''_'' @ str j\<rparr>"
  have "(E i j, ?info) \<in> set ev"
    using create_e_vars_Inr [OF ev] assms(2,3) by force
  then have "(E i j, if i = j then ?info\<lparr>ub := 0\<rparr> else ?info) \<in> set (forbid_loops ?n ev)"
    using assms(2) unfolding forbid_loops_eq by force
  then show ?thesis
    unfolding m by (cases "i = j") force+
qed

lemma model_u_var:
  assumes "mtsp_model cost salesmen min_cities max_cities kw = Inr m"
      and "i < length cost"
  shows "\<exists>info. (U i, info) \<in> set (variables m) \<and> lb info = 0
            \<and> ub info = of_int (case max_cities of None \<Rightarrow> int (length cost) | Some l \<Rightarrow> l)"
proof -
  from assms(1) obtain ev where
    m: "variables m = forbid_loops (length cost) ev @ create_u_vars (length cost)
               (case max_cities of None \<Rightarrow> int (length cost) | Some l \<Rightarrow> l)"
    by (auto simp: mtsp_model_def Let_def build_model_def split: sum.splits)
  show ?thesis
    unfolding m using assms(2) by (force simp: create_u_vars_def)
qed

lemma model_constrs:
  assumes "mtsp_model cost salesmen min_cities max_cities kw = Inr m"
  shows "constrs m = degree_constrs (length cost) salesmen
           @ subtour_constrs (length cost) (case min_cities of None \<Rightarrow> 2 | Some k \<Rightarrow> k)
               (case max_cities of None \<Rightarrow> int (length cost) | Some l \<Rightarrow> l)"
  using assms by (auto simp: mtsp_model_def Let_def build_model_def split: sum.splits)

text \<open>On a square cost matrix every read of \<open>cost[i, j]\<close> succeeds and the model is built.\<close>

lemma create_e_vars_square:
  "\<forall>(i, j)\<in>set ps. i < length cost \<and> j < length (cost ! i) \<Longrightarrow>
   \<exists>vs. create_e_vars cost ps acc = Inr vs"
  by (induction cost ps acc rule: create_e_vars.induct) (auto simp: getitem_def)

lemma square_cost_model:
  assumes "\<forall>row\<in>set cost. length row = length cost"
  shows "\<exists>m. mtsp_model cost salesmen min_cities max_cities kw = Inr m"
proof -
  have "\<forall>(i, j)\<in>set (List.product [0..<length cost] [0..<length cost]).
          i < length cost \<and> j < length (cost ! i)"
    using assms by auto
  from create_e_vars_square [OF this, of "[]"] show ?thesis
    by (auto simp: mtsp_model_def Let_def)
qed

lemma solver_uses_model:
  assumes "mtsp_model cost salesmen min_cities max_cities kw = Inr m"
  shows "mtsp_solver optimize cost salesmen min_cities max_cities kw
           = (case optimize m of
                None \<Rightarrow> Some (cost, Inl GurobiError)
              | Some sol \<Rightarrow>
                  (case extract_routes (nat salesmen) (selected_edges (length cost) (X sol)) [] of
                     None \<Rightarrow> None
                   | Some (selected, routes) \<Rightarrow> Some (cost, Inr (routes, objVal sol, m))))"
  using assms by (simp add: mtsp_solver_def)

lemma selected_edges_iff:
  "(i, j) \<in> set (selected_edges n a) \<longleftrightarrow> i < n \<and> j < n \<and> a (E i j) > 1 / 2"
  by (auto simp: selected_edges_def)

section \<open>A three-node instance\<close>

lemma cost3_feasible:
  "case mtsp_model cost3 1 None None kw0 of Inr m \<Rightarrow> feasible m tour3 | Inl e \<Rightarrow> False"
  by code_simp

lemma interval3: "{Suc 0..<3} = {1, 2}" "{0..<3::nat} = {0, 1, 2}"
  by auto

section \<open>The constraint families of the model\<close>

text \<open>
  C2. For a square cost matrix \<open>mtsp_solver\<close> builds a model \<open>m\<close>, hands it to the optimiser
  and returns it with the routes. With \<open>n\<close> the number of rows of \<open>cost\<close>, the first
  constraints of \<open>m\<close> are the degree block; it holds under an assignment exactly when the
  edges leaving the depot sum to \<open>salesmen\<close>, the edges entering it sum to \<open>salesmen\<close>, and
  for every other node \<open>i\<close> the edges to the nodes \<open>j \<noteq> i\<close> sum to 1 and the edges from the
  nodes \<open>j \<noteq> i\<close> sum to 1.
\<close>

theorem degree_constraints:
  assumes "\<forall>row\<in>set cost. length row = length cost"
  shows "\<exists>m. mtsp_model cost salesmen min_cities max_cities kw = Inr m
    \<and> mtsp_solver optimize cost salesmen min_cities max_cities kw
        = (case optimize m of
             None \<Rightarrow> Some (cost, Inl GurobiError)
           | Some sol \<Rightarrow>
               (case extract_routes (nat salesmen) (selected_edges (length cost) (X sol)) [] of
                  None \<Rightarrow> None
                | Some (selected, routes) \<Rightarrow> Some (cost, Inr (routes, objVal sol, m))))
    \<and> (let n = length cost; block = take (2 + 2 * (n - 1)) (constrs m) in
         block = degree_constrs n salesmen
       \<and> (list_all (sat_constr a) block \<longleftrightarrow>
            (\<Sum>j\<in>{1..<n}. a (E 0 j)) = of_int salesmen
          \<and> (\<Sum>j\<in>{1..<n}. a (E j 0)) = of_int salesmen
          \<and> (\<forall>i\<in>{1..<n}. (\<Sum>j\<in>{0..<n} - {i}. a (E i j)) = 1
                         \<and> (\<Sum>j\<in>{0..<n} - {i}. a (E j i)) = 1)))"
proof -
  from square_cost_model [OF assms] obtain m
    where m: "mtsp_model cost salesmen min_cities max_cities kw = Inr m" by blast
  have len: "length (degree_constrs (length cost) salesmen) = 2 + 2 * (length cost - 1)"
    by (simp add: degree_constrs_def depot_degree_constrs_def out_degree_constrs_def
        in_degree_constrs_def)
  have "take (2 + 2 * (length cost - 1)) (constrs m) = degree_constrs (length cost) salesmen"
    unfolding model_constrs [OF m] len [symmetric] by simp
  with m solver_uses_model [OF m, of optimize] degree_sat [of a "length cost" salesmen]
  show ?thesis by (simp add: Let_def)
qed

theorem degree_constraints_witness:
  "\<exists>m. mtsp_model cost3 1 None None kw0 = Inr m
     \<and> take 6 (constrs m) = degree_constrs 3 1
     \<and> list_all (sat_constr tour3) (take 6 (constrs m))"
proof -
  have sq: "\<forall>row\<in>set cost3. length row = length cost3" by (simp add: cost3_def)
  have n: "length cost3 = 3" by (simp add: cost3_def)
  have "(\<Sum>j\<in>{1..<3}. tour3 (E 0 j)) = of_int 1
      \<and> (\<Sum>j\<in>{1..<3}. tour3 (E j 0)) = of_int 1
      \<and> (\<forall>i\<in>{1..<3}. (\<Sum>j\<in>{0..<3} - {i}. tour3 (E i j)) = 1
                     \<and> (\<Sum>j\<in>{0..<3} - {i}. tour3 (E j i)) = 1)"
    by (simp add: interval3 tour3_def)
  with degree_constraints [OF sq, of 1 None None kw0 "\<lambda>m. None" tour3] show ?thesis
    unfolding n Let_def by auto
qed

text \<open>
  C1. For a square cost matrix \<open>mtsp_solver\<close> builds a model \<open>m\<close>, hands it to the optimiser
  and returns it with the routes. With \<open>n\<close> the number of rows of \<open>cost\<close>, \<open>K\<close> the minimum
  (default 2) and \<open>L\<close> the maximum (default \<open>n\<close>), the constraints of \<open>m\<close> after the degree
  block are the four subtour-elimination families and nothing else: they hold under an
  assignment exactly when, for every non-depot \<open>i\<close>, \<open>u[i] + (L-2)*e[0,i] - e[i,0] \<le> L-1\<close>,
  \<open>u[i] + e[0,i] + (2-K)*e[i,0] \<ge> 2\<close> and \<open>e[0,i] + e[i,0] \<le> 1\<close>, and for every ordered pair
  of distinct non-depot \<open>i, j\<close>, \<open>u[i] - u[j] + L*e[i,j] + (L-2)*e[j,i] \<le> L-1\<close>.
\<close>

theorem subtour_constraints:
  assumes "\<forall>row\<in>set cost. length row = length cost"
  shows "\<exists>m. mtsp_model cost salesmen min_cities max_cities kw = Inr m
    \<and> mtsp_solver optimize cost salesmen min_cities max_cities kw
        = (case optimize m of
             None \<Rightarrow> Some (cost, Inl GurobiError)
           | Some sol \<Rightarrow>
               (case extract_routes (nat salesmen) (selected_edges (length cost) (X sol)) [] of
                  None \<Rightarrow> None
                | Some (selected, routes) \<Rightarrow> Some (cost, Inr (routes, objVal sol, m))))
    \<and> (let n = length cost;
            K = (case min_cities of None \<Rightarrow> 2 | Some k \<Rightarrow> k);
            L = (case max_cities of None \<Rightarrow> int n | Some l \<Rightarrow> l);
            block = drop (2 + 2 * (n - 1)) (constrs m) in
         block = subtour_constrs n K L
       \<and> (list_all (sat_constr a) block \<longleftrightarrow>
            (\<forall>i\<in>{1..<n}.
                a (U i) + of_int (L - 2) * a (E 0 i) - a (E i 0) \<le> of_int (L - 1)
              \<and> a (U i) + a (E 0 i) + of_int (2 - K) * a (E i 0) \<ge> 2
              \<and> a (E 0 i) + a (E i 0) \<le> 1)
          \<and> (\<forall>i\<in>{1..<n}. \<forall>j\<in>{1..<n}. i \<noteq> j \<longrightarrow>
                a (U i) - a (U j) + of_int L * a (E i j) + of_int (L - 2) * a (E j i)
                  \<le> of_int (L - 1))))"
proof -
  let ?K = "case min_cities of None \<Rightarrow> 2 | Some k \<Rightarrow> k"
  let ?L = "case max_cities of None \<Rightarrow> int (length cost) | Some l \<Rightarrow> l"
  from square_cost_model [OF assms] obtain m
    where m: "mtsp_model cost salesmen min_cities max_cities kw = Inr m" by blast
  have len: "length (degree_constrs (length cost) salesmen) = 2 + 2 * (length cost - 1)"
    by (simp add: degree_constrs_def depot_degree_constrs_def out_degree_constrs_def
        in_degree_constrs_def)
  have "drop (2 + 2 * (length cost - 1)) (constrs m) = subtour_constrs (length cost) ?K ?L"
    unfolding model_constrs [OF m] len [symmetric] by simp
  with m solver_uses_model [OF m, of optimize] subtour_sat [of a "length cost" ?K ?L]
  show ?thesis by (simp add: Let_def)
qed

theorem subtour_constraints_witness:
  "\<exists>m. mtsp_model cost3 1 None None kw0 = Inr m
     \<and> drop 6 (constrs m) = subtour_constrs 3 2 3
     \<and> list_all (sat_constr tour3) (drop 6 (constrs m))"
proof -
  have sq: "\<forall>row\<in>set cost3. length row = length cost3" by (simp add: cost3_def)
  have n: "length cost3 = 3" by (simp add: cost3_def)
  have "(\<forall>i\<in>{1..<3}.
            tour3 (U i) + of_int (3 - 2) * tour3 (E 0 i) - tour3 (E i 0) \<le> of_int (3 - 1)
          \<and> tour3 (U i) + tour3 (E 0 i) + of_int (2 - 2) * tour3 (E i 0) \<ge> 2
          \<and> tour3 (E 0 i) + tour3 (E i 0) \<le> 1)
      \<and> (\<forall>i\<in>{1..<3}. \<forall>j\<in>{1..<3}. i \<noteq> j \<longrightarrow>
            tour3 (U i) - tour3 (U j) + of_int 3 * tour3 (E i j) + of_int (3 - 2) * tour3 (E j i)
              \<le> of_int (3 - 1))"
    by (simp add: interval3 tour3_def)
  with subtour_constraints [OF sq, of 1 None None kw0 "\<lambda>m. None" tour3] show ?thesis
    unfolding n Let_def by auto
qed

text \<open>
  C7. Under an assignment within the bounds of the variables of the model, no pair
  \<open>(i, i)\<close> is among the selected edges: the upper bound of \<open>e[i, i]\<close> is 0.
\<close>

theorem no_self_loop_selected:
  assumes "mtsp_model cost salesmen min_cities max_cities kw = Inr m"
      and "list_all (within_bounds a) (variables m)"
  shows "(i, i) \<notin> set (selected_edges (length cost) a)"
proof
  assume "(i, i) \<in> set (selected_edges (length cost) a)"
  then have i: "i < length cost" and sel: "a (E i i) > 1 / 2"
    by (simp_all add: selected_edges_iff)
  from model_e_var [OF assms(1) i i] obtain info
    where "(E i i, info) \<in> set (variables m)" "ub info = 0" by auto
  with assms(2) have "a (E i i) \<le> 0"
    by (force simp: list_all_iff within_bounds_def)
  with sel show False by simp
qed


theorem no_self_loop_selected_witness:
  "(1, 1) \<notin> set (selected_edges (length cost3) tour3)"
proof -
  obtain m where m: "mtsp_model cost3 1 None None kw0 = Inr m"
    using cost3_feasible by (cases "mtsp_model cost3 1 None None kw0") simp_all
  have "feasible m tour3"
    using cost3_feasible m by simp
  then have "list_all (within_bounds tour3) (variables m)"
    by (simp add: feasible_def)
  from no_self_loop_selected [OF m this] show ?thesis .
qed

section \<open>The depot alone\<close>

lemma depot_only_model:
  "\<exists>m. mtsp_model [[c]] salesmen min_cities max_cities kw = Inr m"
  by (simp add: mtsp_model_def getitem_def)

lemma depot_only_infeasible:
  assumes "mtsp_model [[c]] salesmen min_cities max_cities kw = Inr m"
      and "feasible m a"
  shows "salesmen = 0"
proof -
  from assms(2) have "list_all (sat_constr a) (degree_constrs 1 salesmen)"
    using model_constrs [OF assms(1)] by (simp add: feasible_def)
  then show ?thesis
    by (simp add: degree_sat)
qed

lemma depot_only_solver:
  assumes "sound optimize" and "salesmen \<noteq> 0"
  shows "mtsp_solver optimize [[c]] salesmen min_cities max_cities kw
           = Some ([[c]], Inl GurobiError)"
proof -
  obtain m where m: "mtsp_model [[c]] salesmen min_cities max_cities kw = Inr m"
    using depot_only_model by blast
  have "optimize m = None"
  proof (cases "optimize m")
    case (Some sol)
    with assms(1) have "feasible m (X sol)" by (simp add: sound_def)
    with depot_only_infeasible [OF m] assms(2) show ?thesis by blast
  qed simp
  with m show ?thesis by (simp add: mtsp_solver_def)
qed

text \<open>
  C6, as the code has it. On a 1\<times>1 cost matrix with at least one salesman the first
  depot constraint is \<open>0 = salesmen\<close>, so the model has no feasible assignment, the optimiser
  leaves no solution, and \<open>mtsp_solver\<close> raises when it reads the solution: it returns no
  route and no objective value.
\<close>

theorem depot_only_raises:
  assumes "sound optimize" and "1 \<le> salesmen"
  shows "mtsp_solver optimize [[c]] salesmen min_cities max_cities kw
           = Some ([[c]], Inl GurobiError)"
  using depot_only_solver [OF assms(1)] assms(2) by simp

theorem depot_only_raises_witness:
  "mtsp_solver (\<lambda>m. None) [[0]] 1 None None kw0 = Some ([[0]], Inl GurobiError)"
  using depot_only_raises [of "\<lambda>m. None" 1 0 None None kw0] by (simp add: sound_def)

text \<open>
  C6 as the specification states it fails: with no sound optimiser does the call on a
  1\<times>1 matrix with one salesman return a route.
\<close>

theorem depot_only_no_route:
  "\<not> (\<exists>optimize routes objective m. sound optimize
        \<and> mtsp_solver optimize [[0]] 1 None None kw0 = Some ([[0]], Inr (routes, objective, m)))"
  using depot_only_solver [of _ 1 0 None None kw0] by auto

section \<open>The scan and the pop\<close>

lemma find_edge_Some:
  "find_edge es c = Some j \<Longrightarrow> j < length es \<and> fst (es ! j) = c"
  by (induction es arbitrary: j) (auto split: if_splits)

lemma find_edge_None: "find_edge es c = None \<longleftrightarrow> out_degree es c = 0"
  by (induction es) (auto simp: out_degree_def)

lemma mset_pop: "j < length es \<Longrightarrow> mset es = add_mset (es ! j) (mset (pop j es))"
  unfolding pop_def by (subst id_take_nth_drop [of j es]) simp_all

lemma length_pop: "j < length es \<Longrightarrow> length (pop j es) < length es"
  by (simp add: pop_def)

lemma out_degree_mset:
  "mset R = mset A + mset B \<Longrightarrow> out_degree R v = out_degree A v + out_degree B v"
proof -
  assume "mset R = mset A + mset B"
  then have "size (filter_mset (\<lambda>e. fst e = v) (mset R))
      = size (filter_mset (\<lambda>e. fst e = v) (mset A)) + size (filter_mset (\<lambda>e. fst e = v) (mset B))"
    by simp
  then show ?thesis
    unfolding out_degree_def by (metis mset_filter size_mset)
qed

lemma in_degree_mset:
  "mset R = mset A + mset B \<Longrightarrow> in_degree R v = in_degree A v + in_degree B v"
proof -
  assume "mset R = mset A + mset B"
  then have "size (filter_mset (\<lambda>e. snd e = v) (mset R))
      = size (filter_mset (\<lambda>e. snd e = v) (mset A)) + size (filter_mset (\<lambda>e. snd e = v) (mset B))"
    by simp
  then show ?thesis
    unfolding in_degree_def by (metis mset_filter size_mset)
qed

lemma degree_pop:
  assumes "j < length R"
  shows "out_degree R w = out_degree (pop j R) w + (if w = fst (R ! j) then 1 else 0)"
    and "in_degree R w = in_degree (pop j R) w + (if w = snd (R ! j) then 1 else 0)"
proof -
  have "mset R = mset [R ! j] + mset (pop j R)"
    using mset_pop [OF assms] by simp
  from out_degree_mset [OF this, of w] in_degree_mset [OF this, of w]
  show "out_degree R w = out_degree (pop j R) w + (if w = fst (R ! j) then 1 else 0)"
    and "in_degree R w = in_degree (pop j R) w + (if w = snd (R ! j) then 1 else 0)"
    by (auto simp: out_degree_def in_degree_def)
qed

section \<open>One route\<close>

text \<open>
  While a route is under way at a node \<open>v\<close> other than the depot, the working list has one
  more edge leaving \<open>v\<close> than entering it, one more entering the depot than leaving it, and
  is balanced elsewhere. Then the scan finds an edge, and the loop returns.
\<close>

lemma follow_route_under_way:
  assumes "v \<noteq> 0"
      and "\<forall>w. out_degree R w + (if w = 0 then 1 else 0) = in_degree R w + (if w = v then 1 else 0)"
  shows "\<exists>R' es. follow_route R route v = Some (R', route @ map fst es)
           \<and> mset R = mset es + mset R' \<and> walk v es 0 \<and> es \<noteq> []
           \<and> (\<forall>e\<in>set es. fst e \<noteq> 0) \<and> balanced R'"
  using assms
proof (induction "length R" arbitrary: R route v rule: less_induct)
  case less
  from less.prems(2) [rule_format, of v] less.prems(1) have "out_degree R v \<noteq> 0" by simp
  then obtain j where j: "find_edge R v = Some j"
    by (cases "find_edge R v") (simp_all add: find_edge_None)
  then have jl: "j < length R" and src: "fst (R ! j) = v"
    using find_edge_Some by blast+
  let ?x = "snd (R ! j)"
  let ?R1 = "pop j R"
  have e: "R ! j = (v, ?x)" using src by (cases "R ! j") simp
  have deg: "out_degree R w = out_degree ?R1 w + (if w = v then 1 else 0)"
       "in_degree R w = in_degree ?R1 w + (if w = ?x then 1 else 0)" for w
    using degree_pop [OF jl, of w] src by simp_all
  show ?case
  proof (cases "?x = 0")
    case True
    then have "follow_route R route v = Some (?R1, route @ map fst [R ! j])"
      using j src by (subst follow_route.simps) simp
    moreover have "mset R = mset [R ! j] + mset ?R1"
      using mset_pop [OF jl] by simp
    moreover have "walk v [R ! j] 0" using src True by simp
    moreover have "balanced ?R1"
      unfolding balanced_def
    proof
      fix w
      from less.prems(2) [rule_format, of w] deg [of w] True
      show "out_degree ?R1 w = in_degree ?R1 w" by (simp split: if_splits)
    qed
    ultimately show ?thesis
      using src less.prems(1) by (intro exI [of _ ?R1] exI [of _ "[R ! j]"]) simp
  next
    case False
    have inv: "\<forall>w. out_degree ?R1 w + (if w = 0 then 1 else 0)
                 = in_degree ?R1 w + (if w = ?x then 1 else 0)"
    proof
      fix w
      from less.prems(2) [rule_format, of w] deg [of w]
      show "out_degree ?R1 w + (if w = 0 then 1 else 0)
                 = in_degree ?R1 w + (if w = ?x then 1 else 0)"
        by (simp split: if_splits)
    qed
    from less.hyps [OF length_pop [OF jl] False inv, of "route @ [v]"]
    obtain R' es where IH: "follow_route ?R1 (route @ [v]) ?x = Some (R', (route @ [v]) @ map fst es)"
      "mset ?R1 = mset es + mset R'" "walk ?x es 0" "es \<noteq> []" "\<forall>e\<in>set es. fst e \<noteq> 0"
      "balanced R'"
      by blast
    have "follow_route R route v = Some (R', route @ map fst (R ! j # es))"
      using j src False IH(1) by (subst follow_route.simps) simp
    moreover have "mset R = mset (R ! j # es) + mset R'"
      using mset_pop [OF jl] IH(2) by simp
    moreover have "walk v (R ! j # es) 0" using src IH(3) by simp
    ultimately show ?thesis
      using IH(5,6) src less.prems(1)
      by (intro exI [of _ R'] exI [of _ "R ! j # es"]) simp
  qed
qed


lemma closed_route_out_degree: "closed_route es \<Longrightarrow> out_degree es 0 = 1"
  by (cases es) (auto simp: closed_route_def out_degree_def filter_empty_conv)

lemma follow_route_from_depot:
  assumes "balanced R" and "out_degree R 0 \<noteq> 0"
  shows "\<exists>R' es. follow_route R route 0 = Some (R', route @ map fst es)
           \<and> mset R = mset es + mset R' \<and> closed_route es \<and> balanced R'"
proof -
  from assms(2) obtain j where j: "find_edge R 0 = Some j"
    by (cases "find_edge R 0") (simp_all add: find_edge_None)
  then have jl: "j < length R" and src: "fst (R ! j) = 0"
    using find_edge_Some by blast+
  let ?x = "snd (R ! j)"
  let ?R1 = "pop j R"
  have deg: "out_degree R w = out_degree ?R1 w + (if w = 0 then 1 else 0)"
       "in_degree R w = in_degree ?R1 w + (if w = ?x then 1 else 0)" for w
    using degree_pop [OF jl, of w] src by simp_all
  have bal: "out_degree R w = in_degree R w" for w
    using assms(1) by (simp add: balanced_def)
  show ?thesis
  proof (cases "?x = 0")
    case True
    then have "follow_route R route 0 = Some (?R1, route @ map fst [R ! j])"
      using j src by (subst follow_route.simps) simp
    moreover have "mset R = mset [R ! j] + mset ?R1"
      using mset_pop [OF jl] by simp
    moreover have "closed_route [R ! j]"
      using src True by (simp add: closed_route_def)
    moreover have "balanced ?R1"
      unfolding balanced_def
    proof
      fix w
      from bal [of w] deg [of w] True
      show "out_degree ?R1 w = in_degree ?R1 w" by (simp split: if_splits)
    qed
    ultimately show ?thesis by blast
  next
    case False
    have inv: "\<forall>w. out_degree ?R1 w + (if w = 0 then 1 else 0)
                 = in_degree ?R1 w + (if w = ?x then 1 else 0)"
    proof
      fix w
      from bal [of w] deg [of w]
      show "out_degree ?R1 w + (if w = 0 then 1 else 0)
                 = in_degree ?R1 w + (if w = ?x then 1 else 0)"
        by simp
    qed
    from follow_route_under_way [OF False inv, of "route @ [0]"]
    obtain R' es where u: "follow_route ?R1 (route @ [0]) ?x = Some (R', (route @ [0]) @ map fst es)"
      "mset ?R1 = mset es + mset R'" "walk ?x es 0" "es \<noteq> []" "\<forall>e\<in>set es. fst e \<noteq> 0"
      "balanced R'"
      by blast
    have "follow_route R route 0 = Some (R', route @ map fst (R ! j # es))"
      using j src False u(1) by (subst follow_route.simps) simp
    moreover have "mset R = mset (R ! j # es) + mset R'"
      using mset_pop [OF jl] u(2) by simp
    moreover have "closed_route (R ! j # es)"
      using src u(3,5) by (simp add: closed_route_def)
    ultimately show ?thesis using u(6) by blast
  qed
qed

section \<open>All routes\<close>

lemma extract_routes_balanced:
  assumes "balanced R" and "k \<le> out_degree R 0"
  shows "\<exists>R' ess. extract_routes k R routes = Some (R', routes @ map (map fst) ess)
           \<and> length ess = k \<and> mset R = mset (concat ess) + mset R'
           \<and> (\<forall>es\<in>set ess. closed_route es) \<and> balanced R'
           \<and> out_degree R' 0 + k = out_degree R 0"
  using assms
proof (induction k arbitrary: R routes)
  case 0
  then show ?case by (intro exI [of _ R] exI [of _ "[]"]) simp
next
  case (Suc k)
  then have "out_degree R 0 \<noteq> 0" by simp
  from follow_route_from_depot [OF Suc.prems(1) this, of "[]"]
  obtain R1 es where r: "follow_route R [] 0 = Some (R1, map fst es)"
    "mset R = mset es + mset R1" "closed_route es" "balanced R1"
    by auto
  have d: "out_degree R 0 = 1 + out_degree R1 0"
    using out_degree_mset [OF r(2), of 0] closed_route_out_degree [OF r(3)] by simp
  with Suc.prems(2) have "k \<le> out_degree R1 0" by simp
  from Suc.IH [OF r(4) this, of "routes @ [map fst es]"]
  obtain R' ess where IH:
    "extract_routes k R1 (routes @ [map fst es]) = Some (R', (routes @ [map fst es]) @ map (map fst) ess)"
    "length ess = k" "mset R1 = mset (concat ess) + mset R'"
    "\<forall>es\<in>set ess. closed_route es" "balanced R'" "out_degree R' 0 + k = out_degree R1 0"
    by blast
  have "extract_routes (Suc k) R routes = Some (R', routes @ map (map fst) (es # ess))"
    using r(1) IH(1) by simp
  moreover have "mset R = mset (concat (es # ess)) + mset R'"
    using r(2) IH(3) by simp
  moreover have "out_degree R' 0 + Suc k = out_degree R 0"
    using IH(6) d by simp
  ultimately show ?case
    using IH(2,4,5) r(3) by (intro exI [of _ R'] exI [of _ "es # ess"]) simp
qed

section \<open>Nothing is left over\<close>

lemma maximal_element:
  fixes f :: "'a \<Rightarrow> real"
  shows "xs \<noteq> [] \<Longrightarrow> \<exists>x\<in>set xs. \<forall>y\<in>set xs. f y \<le> f x"
proof (induction xs)
  case Nil
  then show ?case by simp
next
  case (Cons a xs)
  show ?case
  proof (cases "xs = []")
    case True
    then show ?thesis by simp
  next
    case False
    with Cons.IH obtain x where x: "x \<in> set xs" "\<forall>y\<in>set xs. f y \<le> f x" by blast
    show ?thesis
    proof (cases "f a \<le> f x")
      case True
      with x show ?thesis by auto
    next
      case False
      with x have "\<forall>y\<in>set (a # xs). f y \<le> f a" by force
      then show ?thesis by auto
    qed
  qed
qed

lemma degree_pos:
  "out_degree es v \<noteq> 0 \<longleftrightarrow> (\<exists>e\<in>set es. fst e = v)"
  "in_degree es v \<noteq> 0 \<longleftrightarrow> (\<exists>e\<in>set es. snd e = v)"
  by (auto simp: out_degree_def in_degree_def filter_empty_conv)

text \<open>
  A balanced edge list with no edge at the depot, along whose edges a potential strictly
  increases, is empty: the end of an edge of greatest potential would have to be left again.
\<close>

lemma increasing_balanced_empty:
  fixes u :: "nat \<Rightarrow> real"
  assumes "balanced R" and "out_degree R 0 = 0"
      and "\<forall>e\<in>set R. fst e \<noteq> 0 \<and> snd e \<noteq> 0 \<longrightarrow> u (fst e) < u (snd e)"
  shows "R = []"
proof (rule ccontr)
  assume "R \<noteq> []"
  from maximal_element [OF this, of "\<lambda>e. u (snd e)"]
  obtain e where e: "e \<in> set R" "\<forall>y\<in>set R. u (snd y) \<le> u (snd e)" by blast
  have no0: "fst e' \<noteq> 0 \<and> snd e' \<noteq> 0" if "e' \<in> set R" for e'
  proof -
    have "in_degree R 0 = 0" using assms(1,2) by (simp add: balanced_def)
    with assms(2) that show ?thesis
      using degree_pos [of R 0] by auto
  qed
  from e(1) have "in_degree R (snd e) \<noteq> 0" using degree_pos(2) [of R "snd e"] by blast
  then have "out_degree R (snd e) \<noteq> 0" using assms(1) by (simp add: balanced_def)
  then obtain e' where e': "e' \<in> set R" "fst e' = snd e"
    using degree_pos(1) [of R "snd e"] by blast
  from no0 [OF e'(1)] assms(3) e'(1) have "u (fst e') < u (snd e')" by blast
  with e'(2) have "u (snd e) < u (snd e')" by simp
  moreover from e(2) e'(1) have "u (snd e') \<le> u (snd e)" by blast
  ultimately show False by simp
qed

section \<open>The selected edges of a feasible assignment\<close>

lemma concat_map_if:
  "concat (map (\<lambda>j. if P j then [f j] else []) ys) = map f (filter P ys)"
  by (induction ys) simp_all

lemma selected_edges_filter:
  "selected_edges n a = filter (\<lambda>(i, j). a (E i j) > 1 / 2) (List.product [0..<n] [0..<n])"
proof -
  have "concat (map (\<lambda>i. concat (map (\<lambda>j. if P i j then [(i, j)] else []) ys)) xs)
      = filter (\<lambda>(i, j). P i j) (List.product xs ys)" for P and xs ys :: "nat list"
    by (induction xs) (simp_all add: concat_map_if filter_map comp_def)
  then show ?thesis by (simp add: selected_edges_def)
qed

lemma distinct_selected_edges: "distinct (selected_edges n a)"
  by (simp add: selected_edges_filter distinct_product)

lemma out_degree_selected:
  "out_degree (selected_edges n a) v = (if v < n then card {j\<in>{0..<n}. a (E v j) > 1 / 2} else 0)"
proof -
  let ?sel = "selected_edges n a"
  have "out_degree ?sel v = card ({e. fst e = v} \<inter> set ?sel)"
    unfolding out_degree_def by (rule distinct_length_filter [OF distinct_selected_edges])
  also have "{e. fst e = v} \<inter> set ?sel
      = (if v < n then Pair v ` {j\<in>{0..<n}. a (E v j) > 1 / 2} else {})"
    by (auto simp: selected_edges_iff)
  also have "card \<dots> = (if v < n then card {j\<in>{0..<n}. a (E v j) > 1 / 2} else 0)"
    by (simp add: card_image inj_on_def)
  finally show ?thesis .
qed

lemma in_degree_selected:
  "in_degree (selected_edges n a) v = (if v < n then card {j\<in>{0..<n}. a (E j v) > 1 / 2} else 0)"
proof -
  let ?sel = "selected_edges n a"
  have "in_degree ?sel v = card ({e. snd e = v} \<inter> set ?sel)"
    unfolding in_degree_def by (rule distinct_length_filter [OF distinct_selected_edges])
  also have "{e. snd e = v} \<inter> set ?sel
      = (if v < n then (\<lambda>j. (j, v)) ` {j\<in>{0..<n}. a (E j v) > 1 / 2} else {})"
    by (auto simp: selected_edges_iff)
  also have "card \<dots> = (if v < n then card {j\<in>{0..<n}. a (E j v) > 1 / 2} else 0)"
    by (simp add: card_image inj_on_def)
  finally show ?thesis .
qed

lemma card_binary_sum:
  fixes f :: "nat \<Rightarrow> real"
  assumes "finite S" and "\<forall>j\<in>S. f j = 0 \<or> f j = 1"
  shows "real (card {j\<in>S. f j > 1 / 2}) = sum f S"
proof -
  have "sum f S = (\<Sum>j\<in>S. if f j > 1 / 2 then 1 else 0)"
    using assms(2) by (intro sum.cong) auto
  also have "\<dots> = (\<Sum>j\<in>{j\<in>S. f j > 1 / 2}. 1)"
    using assms(1) by (subst sum.inter_filter [symmetric]) simp_all
  finally show ?thesis by simp
qed

lemma feasible_binary:
  assumes "mtsp_model cost salesmen min_cities max_cities kw = Inr m"
      and "feasible m a" and "i < length cost" and "j < length cost"
  shows "a (E i j) = 0 \<or> a (E i j) = 1" and "a (E i i) = 0"
proof -
  have *: "\<exists>z::int. a (E i j) = of_int z \<and> 0 \<le> z \<and> z \<le> (if i = j then 0 else 1)"
    if "i < length cost" "j < length cost" for i j
  proof -
    from model_e_var [OF assms(1) that] obtain info
      where info: "(E i j, info) \<in> set (variables m)" "lb info = 0"
        "ub info = (if i = j then 0 else 1)" by blast
    from assms(2) info(1) have "within_bounds a (E i j, info)" "integral a (E i j, info)"
      by (auto simp: feasible_def list_all_iff)
    then have b: "0 \<le> a (E i j)" "a (E i j) \<le> (if i = j then 0 else 1)"
      and z: "a (E i j) = of_int \<lfloor>a (E i j)\<rfloor>"
      using info(2,3) by (simp_all add: within_bounds_def integral_def)
    from b have "0 \<le> \<lfloor>a (E i j)\<rfloor>" "\<lfloor>a (E i j)\<rfloor> \<le> (if i = j then 0 else 1)"
      by (simp_all add: floor_le_iff split: if_splits) 
    with z show ?thesis by blast
  qed
  from * [OF assms(3,4)] show "a (E i j) = 0 \<or> a (E i j) = 1"
    by (auto split: if_splits)
  from * [OF assms(3,3)] show "a (E i i) = 0" by auto
qed


lemma feasible_constrs:
  assumes "mtsp_model cost salesmen min_cities max_cities kw = Inr m" and "feasible m a"
  shows "list_all (sat_constr a) (degree_constrs (length cost) salesmen)"
    and "list_all (sat_constr a) (subtour_constrs (length cost)
           (case min_cities of None \<Rightarrow> 2 | Some k \<Rightarrow> k)
           (case max_cities of None \<Rightarrow> int (length cost) | Some l \<Rightarrow> l))"
  using assms(2) model_constrs [OF assms(1)] by (simp_all add: feasible_def)

lemma feasible_node_degree:
  assumes m: "mtsp_model cost salesmen min_cities max_cities kw = Inr m"
      and f: "feasible m a" and v: "0 < v" "v < length cost"
  shows "out_degree (selected_edges (length cost) a) v = 1"
    and "in_degree (selected_edges (length cost) a) v = 1"
proof -
  let ?n = "length cost"
  have vv: "a (E v v) = 0" using feasible_binary(2) [OF m f v(2) v(2)] .
  from feasible_constrs(1) [OF m f] v
  have sums: "(\<Sum>j\<in>{0..<?n} - {v}. a (E v j)) = 1" "(\<Sum>j\<in>{0..<?n} - {v}. a (E j v)) = 1"
    by (simp_all add: degree_sat)
  have "{j\<in>{0..<?n}. a (E v j) > 1 / 2} = {j\<in>{0..<?n} - {v}. a (E v j) > 1 / 2}"
    using vv by auto
  moreover have "real (card {j\<in>{0..<?n} - {v}. a (E v j) > 1 / 2}) = 1"
    using feasible_binary(1) [OF m f v(2)] sums(1)
    by (subst card_binary_sum) auto
  ultimately show "out_degree (selected_edges ?n a) v = 1"
    using v(2) by (simp add: out_degree_selected)
  have "{j\<in>{0..<?n}. a (E j v) > 1 / 2} = {j\<in>{0..<?n} - {v}. a (E j v) > 1 / 2}"
    using vv by auto
  moreover have "real (card {j\<in>{0..<?n} - {v}. a (E j v) > 1 / 2}) = 1"
    using feasible_binary(1) [OF m f _ v(2)] sums(2)
    by (subst card_binary_sum) auto
  ultimately show "in_degree (selected_edges ?n a) v = 1"
    using v(2) by (simp add: in_degree_selected)
qed

lemma feasible_depot_degree:
  assumes m: "mtsp_model cost salesmen min_cities max_cities kw = Inr m"
      and f: "feasible m a"
  shows "int (out_degree (selected_edges (length cost) a) 0) = salesmen"
    and "int (in_degree (selected_edges (length cost) a) 0) = salesmen"
proof -
  let ?n = "length cost"
  from feasible_constrs(1) [OF m f]
  have sums: "(\<Sum>j\<in>{1..<?n}. a (E 0 j)) = of_int salesmen"
             "(\<Sum>j\<in>{1..<?n}. a (E j 0)) = of_int salesmen"
    by (simp_all add: degree_sat)
  have out: "real (out_degree (selected_edges ?n a) 0) = of_int salesmen"
  proof (cases "?n = 0")
    case True
    with sums(1) show ?thesis by (simp add: out_degree_selected)
  next
    case False
    then have n: "0 < ?n" by simp
    have "{j\<in>{0..<?n}. a (E 0 j) > 1 / 2} = {j\<in>{1..<?n}. a (E 0 j) > 1 / 2}"
      using feasible_binary(2) [OF m f n n] by (auto simp: Suc_le_eq intro: gr0I)
    moreover have "real (card {j\<in>{1..<?n}. a (E 0 j) > 1 / 2}) = of_int salesmen"
      using feasible_binary(1) [OF m f n] sums(1)
      by (subst card_binary_sum) auto
    ultimately show ?thesis using n by (simp add: out_degree_selected)
  qed
  have inc: "real (in_degree (selected_edges ?n a) 0) = of_int salesmen"
  proof (cases "?n = 0")
    case True
    with sums(2) show ?thesis by (simp add: in_degree_selected)
  next
    case False
    then have n: "0 < ?n" by simp
    have "{j\<in>{0..<?n}. a (E j 0) > 1 / 2} = {j\<in>{1..<?n}. a (E j 0) > 1 / 2}"
      using feasible_binary(2) [OF m f n n] by (auto simp: Suc_le_eq intro: gr0I)
    moreover have "real (card {j\<in>{1..<?n}. a (E j 0) > 1 / 2}) = of_int salesmen"
      using feasible_binary(1) [OF m f _ n] sums(2)
      by (subst card_binary_sum) auto
    ultimately show ?thesis using n by (simp add: in_degree_selected)
  qed
  from out show "int (out_degree (selected_edges ?n a) 0) = salesmen"
    by (metis of_int_eq_iff of_int_of_nat_eq)
  from inc show "int (in_degree (selected_edges ?n a) 0) = salesmen"
    by (metis of_int_eq_iff of_int_of_nat_eq)
qed

lemma feasible_balanced:
  assumes m: "mtsp_model cost salesmen min_cities max_cities kw = Inr m"
      and f: "feasible m a"
  shows "balanced (selected_edges (length cost) a)"
  unfolding balanced_def
proof
  fix v
  consider "v = 0" | "0 < v" "v < length cost" | "length cost \<le> v" "0 < v" by linarith
  then show "out_degree (selected_edges (length cost) a) v
           = in_degree (selected_edges (length cost) a) v"
  proof cases
    case 1
    with feasible_depot_degree [OF m f] show ?thesis by simp
  next
    case 2
    with feasible_node_degree [OF m f] show ?thesis by simp
  next
    case 3
    then show ?thesis by (simp add: out_degree_selected in_degree_selected)
  qed
qed

lemma unique_source:
  assumes "out_degree es v \<le> 1" and "e \<in> set es" "e' \<in> set es" and "fst e = v" "fst e' = v"
  shows "e = e'"
proof -
  let ?F = "filter (\<lambda>e. fst e = v) es"
  have "e \<in> set ?F" "e' \<in> set ?F" using assms(2-5) by simp_all
  moreover have "length ?F \<le> 1" using assms(1) by (simp add: out_degree_def)
  ultimately show ?thesis by (cases ?F) auto
qed

lemma unique_target:
  assumes "in_degree es v \<le> 1" and "e \<in> set es" "e' \<in> set es" and "snd e = v" "snd e' = v"
  shows "e = e'"
proof -
  let ?F = "filter (\<lambda>e. snd e = v) es"
  have "e \<in> set ?F" "e' \<in> set ?F" using assms(2-5) by simp_all
  moreover have "length ?F \<le> 1" using assms(1) by (simp add: in_degree_def)
  ultimately show ?thesis by (cases ?F) auto
qed

lemma feasible_potential:
  assumes m: "mtsp_model cost salesmen min_cities max_cities kw = Inr m"
      and f: "feasible m a"
      and e: "(i, j) \<in> set (selected_edges (length cost) a)" and ij: "i \<noteq> 0" "j \<noteq> 0"
  shows "a (U i) < a (U j)"
proof -
  let ?n = "length cost"
  let ?sel = "selected_edges ?n a"
  let ?K = "case min_cities of None \<Rightarrow> 2 | Some k \<Rightarrow> k"
  let ?L = "case max_cities of None \<Rightarrow> int ?n | Some l \<Rightarrow> l"
  from e have i: "i < ?n" and j: "j < ?n" and sel: "a (E i j) > 1 / 2"
    by (simp_all add: selected_edges_iff)
  from sel feasible_binary(1) [OF m f i j] have eij: "a (E i j) = 1" by auto
  from sel feasible_binary(2) [OF m f i i] have neq: "i \<noteq> j" by auto
  from i j ij have ri: "i \<in> {1..<?n}" and rj: "j \<in> {1..<?n}" by auto
  from feasible_constrs(2) [OF m f]
  have low: "a (U i) + a (E 0 i) + of_int (2 - ?K) * a (E i 0) \<ge> 2"
    and ord: "a (U i) - a (U j) + of_int ?L * a (E i j) + of_int (?L - 2) * a (E j i)
                \<le> of_int (?L - 1)"
    unfolding subtour_sat using ri rj neq by blast+
  from feasible_binary(1) [OF m f j i] show ?thesis
  proof
    assume "a (E j i) = 0"
    with ord eij show ?thesis by simp
  next
    assume eji: "a (E j i) = 1"
    then have rev: "(j, i) \<in> set ?sel" using i j by (simp add: selected_edges_iff)
    have n0: "0 < ?n" using i by (cases cost) simp_all
    have deg: "out_degree ?sel i \<le> 1" "in_degree ?sel i \<le> 1"
      using feasible_node_degree [OF m f _ i] ij(1) by simp_all
    have "a (E i 0) = 0"
    proof (rule ccontr)
      assume "a (E i 0) \<noteq> 0"
      with feasible_binary(1) [OF m f i n0] have "(i, 0) \<in> set ?sel"
        using i n0 by (auto simp: selected_edges_iff)
      from unique_source [OF deg(1) this e] ij(2) show False by simp
    qed
    moreover have "a (E 0 i) = 0"
    proof (rule ccontr)
      assume "a (E 0 i) \<noteq> 0"
      with feasible_binary(1) [OF m f n0 i] have "(0, i) \<in> set ?sel"
        using i n0 by (auto simp: selected_edges_iff)
      from unique_target [OF deg(2) this rev] ij(2) show False by simp
    qed
    ultimately have ui: "2 \<le> a (U i)" using low by simp
    from model_u_var [OF m i] obtain info
      where "(U i, info) \<in> set (variables m)" "ub info = of_int ?L" by blast
    with f have "a (U i) \<le> of_int ?L"
      by (force simp: feasible_def list_all_iff within_bounds_def)
    with ui have "(2::real) \<le> of_int ?L" by linarith
    with ord eij eji show ?thesis by simp
  qed
qed

lemma count_sources: "count (image_mset fst (mset es)) v = out_degree es v"
  by (induction es) (simp_all add: out_degree_def)

text \<open>
  On the selected edges of a feasible assignment the extraction returns, one closed route
  per salesman, and consumes every edge.
\<close>

lemma feasible_extraction:
  assumes m: "mtsp_model cost salesmen min_cities max_cities kw = Inr m"
      and f: "feasible m a"
  shows "\<exists>ess. extract_routes (nat salesmen) (selected_edges (length cost) a) []
                 = Some ([], map (map fst) ess)
           \<and> length ess = nat salesmen
           \<and> mset (concat ess) = mset (selected_edges (length cost) a)
           \<and> (\<forall>es\<in>set ess. closed_route es)"
proof -
  let ?sel = "selected_edges (length cost) a"
  have k: "nat salesmen = out_degree ?sel 0"
    using feasible_depot_degree(1) [OF m f] by simp
  from extract_routes_balanced [OF feasible_balanced [OF m f], of "nat salesmen" "[]"] k
  obtain R' ess where r: "extract_routes (nat salesmen) ?sel [] = Some (R', map (map fst) ess)"
    "length ess = nat salesmen" "mset ?sel = mset (concat ess) + mset R'"
    "\<forall>es\<in>set ess. closed_route es" "balanced R'"
    "out_degree R' 0 + nat salesmen = out_degree ?sel 0"
    by auto
  have sub: "set R' \<subseteq> set ?sel"
    using r(3) by (metis mset_subset_eq_add_right set_mset_mono set_mset_mset)
  have "R' = []"
  proof (rule increasing_balanced_empty [OF r(5), of "\<lambda>i. a (U i)"])
    show "out_degree R' 0 = 0" using r(6) k by simp
    show "\<forall>e\<in>set R'. fst e \<noteq> 0 \<and> snd e \<noteq> 0 \<longrightarrow> a (U (fst e)) < a (U (snd e))"
    proof (intro ballI impI)
      fix e assume "e \<in> set R'" "fst e \<noteq> 0 \<and> snd e \<noteq> 0"
      with sub feasible_potential [OF m f, of "fst e" "snd e"]
      show "a (U (fst e)) < a (U (snd e))" by auto
    qed
  qed
  with r show ?thesis by auto
qed

lemma feasible_sources:
  assumes m: "mtsp_model cost salesmen min_cities max_cities kw = Inr m"
      and f: "feasible m a"
  shows "mset (map fst (selected_edges (length cost) a))
           = replicate_mset (nat salesmen) 0 + mset [1..<length cost]"
proof (rule multiset_eqI)
  fix v
  let ?sel = "selected_edges (length cost) a"
  have c: "count (mset [1..<length cost]) v = (if 1 \<le> v \<and> v < length cost then 1 else 0)"
    using distinct_count_atmost_1 [of "[1..<length cost]"] by simp
  consider "v = 0" | "0 < v" "v < length cost" | "length cost \<le> v" "0 < v" by linarith
  then show "count (mset (map fst ?sel)) v
      = count (replicate_mset (nat salesmen) 0 + mset [1..<length cost]) v"
  proof cases
    case 1
    with feasible_depot_degree(1) [OF m f] c show ?thesis
      by (simp add: count_sources)
  next
    case 2
    with feasible_node_degree(1) [OF m f] c show ?thesis
      by (simp add: count_sources)
  next
    case 3
    with c show ?thesis by (simp add: count_sources out_degree_selected)
  qed
qed

lemma walk_edges:
  "walk u es v \<Longrightarrow> es \<noteq> [] \<Longrightarrow> es = zip (map fst es) (tl (map fst es) @ [v])"
proof (induction es arbitrary: u)
  case Nil
  then show ?case by simp
next
  case (Cons e es)
  show ?case
  proof (cases es)
    case Nil
    with Cons.prems show ?thesis by (cases e) simp
  next
    case (Cons e' es')
    with Cons.prems have w: "walk (snd e) es v" "fst e' = snd e" by simp_all
    from Cons.IH [OF w(1)] Cons have "es = zip (map fst es) (tl (map fst es) @ [v])" by simp
    with Cons w(2) show ?thesis by (cases e) simp
  qed
qed

lemma closed_route_sources:
  assumes "closed_route es"
  shows "map fst es \<noteq> []" and "hd (map fst es) = 0" and "0 \<notin> set (tl (map fst es))"
    and "es = zip (map fst es) (tl (map fst es) @ [0])"
  using assms walk_edges [of 0 es 0]
  by (cases es; auto simp: closed_route_def map_tl)+

section \<open>Two instances\<close>

lemma sound_fixed_answer: "sound (fixed_answer a v)"
  by (simp add: sound_def fixed_answer_def)


lemma cost3_selected: "selected_edges (length cost3) tour3 = [(0, 1), (1, 2), (2, 0)]"
  by code_simp

lemma cost3_extract:
  "extract_routes (nat 1) [(0, 1), (1, 2), (2, 0)] [] = Some ([], [[0, 1, 2]])"
  by (simp add: follow_route.simps pop_def)



section \<open>The routes of a feasible assignment\<close>

lemma upt_from_1: "0 < n \<Longrightarrow> mset [0..<n] = add_mset 0 (mset [1..<n])"
  by (simp add: upt_conv_Cons)

text \<open>
  C3. With one salesman, whenever the model is built and the optimiser leaves a feasible
  assignment, \<open>mtsp_solver\<close> returns a single route. The route has length \<open>n\<close>, starts at
  the depot and holds every node of \<open>0..n-1\<close> exactly once; its consecutive pairs, closed
  by the pair from its last node back to the depot, are exactly the selected edges.
\<close>

theorem single_salesman_tour:
  assumes "mtsp_model cost 1 min_cities max_cities kw = Inr m"
      and "optimize m = Some sol" and "feasible m (X sol)"
  shows "\<exists>route. mtsp_solver optimize cost 1 min_cities max_cities kw
                     = Some (cost, Inr ([route], objVal sol, m))
           \<and> length route = length cost \<and> hd route = 0 \<and> distinct route
           \<and> set route = {0..<length cost}
           \<and> mset (zip route (tl route @ [0])) = mset (selected_edges (length cost) (X sol))"
proof -
  let ?n = "length cost"
  let ?sel = "selected_edges ?n (X sol)"
  from feasible_extraction [OF assms(1,3)] obtain ess
    where r: "extract_routes (nat 1) ?sel [] = Some ([], map (map fst) ess)"
      "length ess = nat 1" "mset (concat ess) = mset ?sel" "\<forall>es\<in>set ess. closed_route es"
    by blast
  from r(2) obtain es where ess: "ess = [es]" by (cases ess) simp_all
  let ?route = "map fst es"
  have cr: "closed_route es" using r(4) ess by simp
  have es: "mset es = mset ?sel" using r(3) ess by simp
  have run: "mtsp_solver optimize cost 1 min_cities max_cities kw
               = Some (cost, Inr ([?route], objVal sol, m))"
    using assms(1,2) r(1) ess by (simp add: mtsp_solver_def)
  have "es \<noteq> []" using cr by (simp add: closed_route_def)
  then have "?sel \<noteq> []" using es by auto
  then have n: "0 < ?n" by (cases "?n") (simp_all add: selected_edges_def)
  have "mset ?route = mset (map fst ?sel)" using es by (metis mset_map)
  also have "\<dots> = mset [0..<?n]"
    using feasible_sources [OF assms(1,3)] upt_from_1 [OF n] by simp
  finally have perm: "mset ?route = mset [0..<?n]" .
  have "length ?route = ?n" using mset_eq_length [OF perm] by simp
  moreover have "distinct ?route" using mset_eq_imp_distinct_iff [OF perm] by simp
  moreover have "set ?route = {0..<?n}" using mset_eq_setD [OF perm] by simp
  moreover have "hd ?route = 0" using closed_route_sources(2) [OF cr] .
  moreover have "mset (zip ?route (tl ?route @ [0])) = mset ?sel"
    using closed_route_sources(4) [OF cr] es by simp
  ultimately show ?thesis using run by blast
qed

theorem single_salesman_tour_witness:
  "\<exists>route m. mtsp_solver (fixed_answer tour3 3) cost3 1 None None kw0
                 = Some (cost3, Inr ([route], 3, m))
     \<and> length route = 3 \<and> hd route = 0 \<and> distinct route \<and> set route = {0..<3}
     \<and> mset (zip route (tl route @ [0])) = mset [(0, 1), (1, 2), (2, 0)]"
proof -
  obtain m where m: "mtsp_model cost3 1 None None kw0 = Inr m" and f: "feasible m tour3"
    using cost3_feasible by (cases "mtsp_model cost3 1 None None kw0") simp_all
  have o: "fixed_answer tour3 3 m = Some \<lparr>X = tour3, objVal = 3\<rparr>"
    using f by (simp add: fixed_answer_def)
  have "length cost3 = 3" by (simp add: cost3_def)
  with single_salesman_tour [where optimize = "fixed_answer tour3 3", OF m o] f cost3_selected
  show ?thesis
    by auto
qed





section \<open>Edge lists that form closed routes\<close>

lemma degree_append:
  "out_degree (xs @ ys) v = out_degree xs v + out_degree ys v"
  "in_degree (xs @ ys) v = in_degree xs v + in_degree ys v"
  by (simp_all add: out_degree_def in_degree_def)

lemma walk_degree:
  "walk u w v \<Longrightarrow>
   out_degree w x + (if x = v then 1 else 0) = in_degree w x + (if x = u then 1 else 0)"
proof (induction w arbitrary: u)
  case Nil
  then show ?case by (simp add: out_degree_def in_degree_def)
next
  case (Cons e w)
  then have "walk (snd e) w v" "fst e = u" by simp_all
  from Cons.IH [OF this(1), unfolded out_degree_def in_degree_def] this(2) show ?case
    unfolding out_degree_def in_degree_def by (auto split: if_splits)
qed

lemma balanced_concat: "\<forall>w\<in>set ws. walk 0 w 0 \<Longrightarrow> balanced (concat ws)"
proof (induction ws)
  case Nil
  then show ?case by (simp add: balanced_def out_degree_def in_degree_def)
next
  case (Cons w ws)
  then have "balanced (concat ws)" "walk 0 w 0" by simp_all
  with walk_degree [of 0 w 0] show ?case
    by (simp add: balanced_def degree_append)
qed

lemma depot_degree_concat:
  "\<forall>w\<in>set ws. closed_route w \<Longrightarrow> out_degree (concat ws) 0 = length ws"
  by (induction ws) (simp_all add: out_degree_def closed_route_out_degree [unfolded out_degree_def])

lemma degree_mset_cong:
  assumes "mset A = mset B"
  shows "out_degree A v = out_degree B v" and "in_degree A v = in_degree B v"
  using out_degree_mset [of A B "[]" v] in_degree_mset [of A B "[]" v] assms
  by (simp_all add: out_degree_def in_degree_def)

lemma walk_append: "walk u (a @ b) v \<longleftrightarrow> (\<exists>x. walk u a x \<and> walk x b v)"
  by (induction a arbitrary: u) auto

text \<open>
  Where every node other than the depot is left by at most one edge, a balanced part of
  the list that holds one edge of a walk to the depot holds the rest of the walk too,
  and so an edge into the depot.
\<close>

lemma residual_reaches_depot:
  assumes "walk x w 0" and "w \<noteq> []" and "set w \<subseteq> set selected" and "hd w \<in> set R"
      and "\<forall>e\<in>set w. fst e \<noteq> 0" and "balanced R" and "set R \<subseteq> set selected"
      and "\<forall>v. v \<noteq> 0 \<longrightarrow> out_degree selected v \<le> 1"
  shows "in_degree R 0 \<noteq> 0"
  using assms(1-5)
proof (induction w arbitrary: x)
  case Nil
  then show ?case by simp
next
  case (Cons e w)
  show ?case
  proof (cases w)
    case Nil
    with Cons.prems have "e \<in> set R" "snd e = 0" by simp_all
    then show ?thesis using degree_pos(2) [of R 0] by blast
  next
    case (Cons e' w')
    with Cons.prems have e: "e \<in> set R" and y: "fst e' = snd e" "fst e' \<noteq> 0"
      and w: "walk (snd e) w 0" "set w \<subseteq> set selected" "\<forall>e\<in>set w. fst e \<noteq> 0"
      and e': "e' \<in> set selected"
      by simp_all
    from e have "in_degree R (snd e) \<noteq> 0" using degree_pos(2) [of R "snd e"] by blast
    then have "out_degree R (snd e) \<noteq> 0" using assms(6) by (simp add: balanced_def)
    then obtain e'' where e'': "e'' \<in> set R" "fst e'' = snd e"
      using degree_pos(1) [of R "snd e"] by blast
    have "out_degree selected (snd e) \<le> 1" using assms(8) y by simp
    from unique_source [OF this _ e' e''(2) y(1)] e''(1) assms(7) have "e'' = e'" by blast
    with e''(1) Cons have "hd w \<in> set R" by simp
    from Cons.IH [OF w(1) _ w(2) this w(3)] Cons show ?thesis by simp
  qed
qed

lemma simple_routes_extraction:
  assumes ws: "mset (concat ws) = mset selected" "\<forall>w\<in>set ws. closed_route w"
      and uniq: "\<forall>v. v \<noteq> 0 \<longrightarrow> out_degree selected v \<le> 1"
  shows "\<exists>ess. extract_routes (length ws) selected [] = Some ([], map (map fst) ess)
           \<and> length ess = length ws \<and> mset (concat ess) = mset selected
           \<and> (\<forall>es\<in>set ess. closed_route es)"
proof -
  have walks: "\<forall>w\<in>set ws. walk 0 w 0" using ws(2) by (simp add: closed_route_def)
  have bal: "balanced selected"
    using balanced_concat [OF walks] degree_mset_cong [OF ws(1)] by (simp add: balanced_def)
  have k: "out_degree selected 0 = length ws"
    using depot_degree_concat [OF ws(2)] degree_mset_cong(1) [OF ws(1)] by simp
  from extract_routes_balanced [OF bal, of "length ws" "[]"] k
  obtain R ess where r: "extract_routes (length ws) selected [] = Some (R, map (map fst) ess)"
    "length ess = length ws" "mset selected = mset (concat ess) + mset R"
    "\<forall>es\<in>set ess. closed_route es" "balanced R"
    "out_degree R 0 + length ws = out_degree selected 0"
    by auto
  have sub: "set R \<subseteq> set selected"
    using r(3) by (metis mset_subset_eq_add_right set_mset_mono set_mset_mset)
  have out0: "out_degree R 0 = 0" using r(6) k by simp
  then have in0: "in_degree R 0 = 0" using r(5) by (simp add: balanced_def)
  have "R = []"
  proof (rule ccontr)
    assume "R \<noteq> []"
    then obtain e where e: "e \<in> set R" by (cases R) auto
    then have src: "fst e \<noteq> 0" using out0 degree_pos(1) [of R 0] by auto
    from e sub have "e \<in> set (concat ws)" using ws(1) by (metis mset_eq_setD subsetD)
    then obtain w where w: "w \<in> set ws" "e \<in> set w" by auto
    then obtain w1 w2 where split: "w = w1 @ e # w2" by (meson split_list)
    from w(1) ws(2) have cr: "w \<noteq> []" "walk 0 w 0" "\<forall>e\<in>set (tl w). fst e \<noteq> 0"
      by (simp_all add: closed_route_def)
    have "w1 \<noteq> []" using cr(2) src split by (cases w1) auto
    then have tl: "set (e # w2) \<subseteq> set (tl w)" using split by (cases w1) auto
    from cr(2) split obtain x where "walk x (e # w2) 0" by (auto simp: walk_append)
    moreover have "set (e # w2) \<subseteq> set selected"
      using w(1) split ws(1) by (metis (no_types, lifting) Un_iff concat_append concat.simps(2)
          mset_eq_setD set_append split_list subsetI)
    moreover have "\<forall>e'\<in>set (e # w2). fst e' \<noteq> 0" using tl cr(3) by blast
    ultimately have "in_degree R 0 \<noteq> 0"
      using residual_reaches_depot [of x "e # w2" selected R] e r(5) sub uniq by simp
    with in0 show False by simp
  qed
  with r show ?thesis by auto
qed


text \<open>
  C9, as the code has it. When the selected edges form \<open>salesmen\<close> closed walks through the
  depot that pass the depot only at their ends, and no node other than the depot is left
  by two selected edges, the extraction returns with an empty working list; the edges
  followed in the rounds are closed routes and together are exactly the selected edges,
  each as often as it occurs in the list.
\<close>

theorem closed_routes_consumed:
  assumes "forms_closed_walks selected ws"
      and "\<forall>w\<in>set ws. \<forall>e\<in>set (tl w). fst e \<noteq> 0"
      and "\<forall>v. v \<noteq> 0 \<longrightarrow> out_degree selected v \<le> 1"
  shows "\<exists>ess. extract_routes (length ws) selected [] = Some ([], map (map fst) ess)
           \<and> length ess = length ws \<and> mset (concat ess) = mset selected
           \<and> (\<forall>es\<in>set ess. closed_route es)"
proof -
  from assms(1,2) have "mset (concat ws) = mset selected" "\<forall>w\<in>set ws. closed_route w"
    by (simp_all add: forms_closed_walks_def closed_route_def list_all_iff)
  from simple_routes_extraction [OF this assms(3)] show ?thesis .
qed

theorem closed_routes_consumed_witness:
  "\<exists>ess. extract_routes 2 [(0, 1), (0, 2), (1, 0), (2, 0)] [] = Some ([], map (map fst) ess)
     \<and> length ess = 2 \<and> mset (concat ess) = mset [(0, 1), (0, 2), (1, 0), (2, 0)]
     \<and> (\<forall>es\<in>set ess. closed_route es)"
proof -
  have a: "forms_closed_walks [(0, 1), (0, 2), (1, 0), (2, 0)] [[(0, 1), (1, 0)], [(0, 2), (2, 0)]]"
    by (simp add: forms_closed_walks_def)
  have b: "\<forall>w\<in>set [[(0, 1), (1, 0)], [(0, 2), (2, 0)]]. \<forall>e\<in>set (tl w). fst e \<noteq> (0::nat)"
    by simp
  have c: "\<forall>v. v \<noteq> 0 \<longrightarrow> out_degree [(0, 1), (0, 2), (1, 0), (2, 0)] v \<le> 1"
    by (simp add: out_degree_def)
  have len: "length [[(0, 1), (1, 0)], [(0, 2), (2::nat, 0::nat)]] = 2"
    by simp
  from closed_routes_consumed [OF a b c] show ?thesis
    unfolding len .
qed

text \<open>
  C9 as the specification states it fails: the four edges below form one closed walk through the depot,
  0, 2, 1, 2, 0, yet the round for the single salesman takes the edge from node 2 back to
  the depot at once and leaves two edges in the working list.
\<close>

theorem closed_walk_left_over:
  "forms_closed_walks [(0, 2), (1, 2), (2, 0), (2, 1)] [[(0, 2), (2, 1), (1, 2), (2, 0)]]
   \<and> extract_routes 1 [(0, 2), (1, 2), (2, 0), (2, 1)] [] = Some ([(1, 2), (2, 1)], [[0, 2]])"
  unfolding One_nat_def by (simp add: forms_closed_walks_def follow_route.simps pop_def)

section \<open>The heap run and the run on values\<close>












end
